theory Spec2Isabelle
  imports Main "HOL-Library.Multiset" "HOL-Library.AList"
begin

section \<open>Data model\<close>

text \<open>
  The graph objects of \<^verbatim>\<open>onnxruntime_extensions/pnp/_utils.py\<close>. The functions of that
  file read and write the fields below and copy everything else along, so the rest of each
  protobuf message is one opaque payload.

  A \<open>named\<close> value is a TensorProto (an initializer) or a ValueInfoProto (a value-info
  record, a declared graph input or a declared graph output): a name and content that is
  never inspected. A node has a name, an operator type, input and output tensor names and
  attributes; every attribute has a name and a graph field \<open>g\<close> (the empty graph when
  the attribute holds no graph); a graph has a name, nodes, initializers, value-info
  records and declared inputs and outputs.
\<close>

datatype named = Named (pname: string) (payload: nat)

datatype node =
    Node (name: string) (op_type: string) (node_input: "string list") (node_output: "string list")
         (attribute: "attr list")
  and attr = Attr (a_name: string) (g: graph)
  and graph =
    Graph (g_name: string) (g_node: "node list") (g_initializer: "named list")
          (g_value_info: "named list") (g_input: "named list") (g_output: "named list")

datatype opset = Opset (domain: string) (version: int)

datatype model = Model (graph: graph) (opset_import: "opset list")

text \<open>The exceptions the functions raise, as values.\<close>

datatype error =
    DanglingReference string string
      \<comment> \<open>RuntimeError "<node>: cannot find an operator to produce the tensor: <tensor>"\<close>
  | CycleDetected string
      \<comment> \<open>RuntimeError "ONNX Graph is not a DAG, the cycle is found at <node>"\<close>
  | AssertionError
  | KeyError string
  | IndexError

section \<open>Identifier renaming\<close>

text \<open>Python's \<^verbatim>\<open>"{}".format(n)\<close> for a non-negative integer: its decimal digits.\<close>

fun string_of_nat :: "nat \<Rightarrow> string" where
  "string_of_nat n =
     (if n < 10 then [''0123456789'' ! n]
      else string_of_nat (n div 10) @ [''0123456789'' ! (n mod 10)])"

declare string_of_nat.simps [simp del]

definition merge_name :: "string \<Rightarrow> string \<Rightarrow> string" where
  "merge_name prefix nm = prefix @ ''_'' @ nm"

text \<open>
  \<^verbatim>\<open>_rename_iter\<close>: every element gets the prefixed name. Without \<^verbatim>\<open>inplace\<close> the
  elements are deep copies; with it the caller's list holds the renamed elements
  afterwards, which the callers below write out by storing the result.
\<close>

definition rename_iter :: "named list \<Rightarrow> string \<Rightarrow> named list" where
  "rename_iter iterables prefix_name =
     map (\<lambda>iz. Named (merge_name prefix_name (pname iz)) (payload iz)) iterables"

text \<open>\<^verbatim>\<open>io_rename\<close>, the local function of \<^verbatim>\<open>_rename_graph\<close>.\<close>

definition io_rename :: "node \<Rightarrow> string \<Rightarrow> nat \<Rightarrow> node" where
  "io_rename nd prefix_name idx =
     Node (if name nd = [] then merge_name prefix_name (''op'' @ string_of_nat idx)
           else merge_name prefix_name (name nd))
          (op_type nd)
          (map (\<lambda>nm. if nm \<noteq> [] then merge_name prefix_name nm else []) (node_input nd))
          (map (\<lambda>nm. if nm \<noteq> [] then merge_name prefix_name nm else []) (node_output nd))
          (attribute nd)"

text \<open>
  \<^verbatim>\<open>_rename_graph(graph, prefix, graph_or_container)\<close>. The third argument is any object
  with an \<^verbatim>\<open>initializer\<close> and a \<^verbatim>\<open>value_info\<close> list; both are extended in place, so the
  model takes the two lists and returns them with the renamed nodes.
\<close>

type_synonym pools = "named list \<times> named list"

definition rename_graph :: "graph \<Rightarrow> string \<Rightarrow> pools \<Rightarrow> node list \<times> pools" where
  "rename_graph gr prefix c =
     (let initializer' = fst c @ rename_iter (g_initializer gr) prefix;
          value_info' = snd c @ rename_iter (g_value_info gr) prefix
      in (map (\<lambda>(idx, nd). io_rename nd prefix idx) (enumerate 0 (g_node gr)),
          (initializer', value_info')))"

section \<open>Dead-initializer pruning\<close>

text \<open>\<^verbatim>\<open>_remove_unused_initializers\<close>: the set of all input names, then one filter.\<close>

definition remove_unused_initializers ::
  "node list \<Rightarrow> named list \<Rightarrow> string set \<Rightarrow> named list" where
  "remove_unused_initializers nodes initializers reversed_names =
     (let nodes_input_set = foldl (\<lambda>s nd. s \<union> set (node_input nd)) {} nodes
      in filter (\<lambda>intlz. pname intlz \<in> nodes_input_set \<or> pname intlz \<in> reversed_names)
           initializers)"

section \<open>Topological sort\<close>

text \<open>
  The vertices of the traversal: the synthetic \<^verbatim>\<open>DynNode\<close> named tuple (a name and an
  output list; the code builds exactly one, \<^verbatim>\<open>input_nodes[0]\<close>, named
  \<^verbatim>\<open>placeholder\<close>) and the nodes of the graph. The test
  \<^verbatim>\<open>node is not input_nodes[0]\<close> is the test for the first constructor.
\<close>

datatype vertex = DynNode string "string list" | Op node

fun v_name :: "vertex \<Rightarrow> string" where
  "v_name (DynNode n outs) = n"
| "v_name (Op nd) = name nd"

fun v_output :: "vertex \<Rightarrow> string list" where
  "v_output (DynNode n outs) = outs"
| "v_output (Op nd) = node_output nd"

text \<open>
  The dictionary \<^verbatim>\<open>edges\<close> maps a vertex name to the list of its consumers, in insertion
  order: an association list, read with \<open>map_of\<close> and written with \<open>AList.update\<close>.
  The three mutable locals of the traversal are the state of \<^verbatim>\<open>recursive_helper\<close>.
\<close>

type_synonym edges = "(string \<times> node list) list"

record dfs_state =
  visited :: "string set"
  sorted_nodes :: "node list"
  unfinished_nodes :: "string set"

text \<open>
  The measure of the traversal: the number of keys of \<^verbatim>\<open>edges\<close> not in
  \<^verbatim>\<open>unfinished_nodes\<close>, then the length of the successor list still to visit. Every
  nested call has one more key in \<^verbatim>\<open>unfinished_nodes\<close>, and a call that returns has
  restored the set.
\<close>

definition dfs_measure ::
  "edges \<times> vertex \<times> dfs_state + edges \<times> node list \<times> dfs_state \<Rightarrow> nat \<times> nat" where
  "dfs_measure x =
     (case x of
        Inl (E, n, st) \<Rightarrow> (card (fst ` set E - unfinished_nodes st), 0)
      | Inr (E, ss, st) \<Rightarrow> (card (fst ` set E - unfinished_nodes st), Suc (length ss)))"

text \<open>
  \<^verbatim>\<open>recursive_helper\<close> with its loop over the successors. An exception leaves the
  traversal, so the state is returned only on normal completion. The source recurses one
  interpreter frame per node of a dependency chain, and the interpreter raises
  RecursionError beyond its frame limit; the embedding has no such limit, so what is
  proved of it for all graphs holds of the source for the graphs whose chains stay within
  the limit. The evaluations at concrete graphs below recurse at most four deep.
\<close>

function recursive_helper :: "edges \<Rightarrow> vertex \<Rightarrow> dfs_state \<Rightarrow> error + dfs_state"
  and visit_successors :: "edges \<Rightarrow> node list \<Rightarrow> dfs_state \<Rightarrow> error + dfs_state"
where
  "recursive_helper edges node st =
    (if v_name node \<in> visited st then Inr st
     else if v_name node \<in> unfinished_nodes st then Inl (CycleDetected (v_name node))
     else
       let st1 = st\<lparr>unfinished_nodes := insert (v_name node) (unfinished_nodes st)\<rparr> in
       case (case map_of edges (v_name node) of
               None \<Rightarrow> Inr st1
             | Some succs \<Rightarrow>
                 if v_name node = [] then Inl AssertionError
                 else visit_successors edges succs st1) of
         Inl e \<Rightarrow> Inl e
       | Inr st2 \<Rightarrow>
           Inr (st2\<lparr>unfinished_nodes := unfinished_nodes st2 - {v_name node},
                    visited := insert (v_name node) (visited st2),
                    sorted_nodes := (case node of DynNode n outs \<Rightarrow> sorted_nodes st2
                                     | Op nd \<Rightarrow> nd # sorted_nodes st2)\<rparr>))"
| "visit_successors edges [] st = Inr st"
| "visit_successors edges (s # ss) st =
    (case recursive_helper edges (Op s) st of
       Inl e \<Rightarrow> Inl e
     | Inr st' \<Rightarrow> visit_successors edges ss st')"
  by pat_completeness auto

termination
proof -
  have restored:
    "recursive_helper_visit_successors_dom (Inl (E, n, st)) \<Longrightarrow>
       recursive_helper E n st = Inr st' \<Longrightarrow> unfinished_nodes st' = unfinished_nodes st"
    "recursive_helper_visit_successors_dom (Inr (E, ss, st)) \<Longrightarrow>
       visit_successors E ss st = Inr st'' \<Longrightarrow> unfinished_nodes st'' = unfinished_nodes st"
    for E n st st' ss st''
  proof (induction E n st and E ss st arbitrary: st' and st'' rule: recursive_helper_visit_successors.pinduct)
    case (1 edges node st)
    note eq = recursive_helper.psimps [OF "1.hyps"]
    show ?case
    proof (cases "v_name node \<in> visited st")
      case True
      with "1.prems" eq show ?thesis by simp
    next
      case nv: False
      show ?thesis
      proof (cases "v_name node \<in> unfinished_nodes st")
        case True
        with "1.prems" eq nv show ?thesis by simp
      next
        case nu: False
        let ?st1 = "st\<lparr>unfinished_nodes := insert (v_name node) (unfinished_nodes st)\<rparr>"
        show ?thesis
        proof (cases "map_of edges (v_name node)")
          case None
          with "1.prems" eq nv nu show ?thesis by (auto simp: Let_def)
        next
          case (Some succs)
          show ?thesis
          proof (cases "v_name node = []")
            case True
            with "1.prems" eq nv nu Some show ?thesis by (simp add: Let_def)
          next
            case ne: False
            from "1.prems" eq nv nu Some ne obtain st2 where
              vs: "visit_successors edges succs ?st1 = Inr st2" and
              res: "unfinished_nodes st' = unfinished_nodes st2 - {v_name node}"
              by (auto simp: Let_def split: sum.splits)
            from "1.IH" [OF nv nu refl Some ne vs]
            have "unfinished_nodes st2 = insert (v_name node) (unfinished_nodes st)" by simp
            with res nu show ?thesis by auto
          qed
        qed
      qed
    qed
  next
    case (2 edges st)
    then show ?case by (simp add: visit_successors.psimps)
  next
    case (3 edges s ss st)
    note eq = visit_successors.psimps(2) [OF "3.hyps"]
    from "3.prems" eq obtain b where b: "recursive_helper edges (Op s) st = Inr b"
      and r: "visit_successors edges ss b = Inr st''"
      by (auto split: sum.splits)
    from "3.IH"(1) [OF b] "3.IH"(2) [OF b r] show ?case by simp
  qed
  have card_less: "card (fst ` set E - insert k U) < card (fst ` set E - U)"
    if "map_of E k = Some v" and "k \<notin> U" for E :: edges and k v U
  proof -
    from that(1) have "k \<in> fst ` set E"
      by (metis map_of_eq_None_iff option.distinct(1))
    with that(2) show ?thesis
      by (intro psubset_card_mono) auto
  qed
  show ?thesis
  proof (relation "inv_image (less_than <*lex*> less_than) dfs_measure")
    show "wf (inv_image (less_than <*lex*> less_than) dfs_measure)"
      by (intro wf_inv_image wf_lex_prod wf_less_than)
  next
    fix edges :: edges and node and st :: dfs_state and x x2
    assume "v_name node \<notin> unfinished_nodes st"
      and "x = st\<lparr>unfinished_nodes := insert (v_name node) (unfinished_nodes st)\<rparr>"
      and "map_of edges (v_name node) = Some x2"
    then show "(Inr (edges, x2, x), Inl (edges, node, st))
        \<in> inv_image (less_than <*lex*> less_than) dfs_measure"
      by (simp add: dfs_measure_def card_less)
  next
    fix edges :: edges and s ss and st :: dfs_state
    show "(Inl (edges, Op s, st), Inr (edges, s # ss, st))
        \<in> inv_image (less_than <*lex*> less_than) dfs_measure"
      by (simp add: dfs_measure_def)
  next
    fix edges :: edges and s ss and st :: dfs_state and x2
    assume "recursive_helper edges (Op s) st = Inr x2"
      and "recursive_helper_visit_successors_dom (Inl (edges, Op s, st))"
    then have "unfinished_nodes x2 = unfinished_nodes st"
      using restored(1) by blast
    then show "(Inr (edges, ss, x2), Inr (edges, s # ss, st))
        \<in> inv_image (less_than <*lex*> less_than) dfs_measure"
      by (simp add: dfs_measure_def)
  qed
qed

declare recursive_helper.simps [simp del]

text \<open>
  The producer index \<^verbatim>\<open>op_output_map\<close>: every output name of every vertex of
  \<^verbatim>\<open>nodes + input_nodes\<close>, in that order, a later vertex overwriting an earlier one.
\<close>

definition register_outputs :: "(string \<rightharpoonup> vertex) \<Rightarrow> vertex \<Rightarrow> (string \<rightharpoonup> vertex)" where
  "register_outputs m nd = foldl (\<lambda>m ky. m(ky \<mapsto> nd)) m (v_output nd)"

definition op_output_map_of :: "vertex list \<Rightarrow> (string \<rightharpoonup> vertex)" where
  "op_output_map_of vs = foldl register_outputs Map.empty vs"

text \<open>\<^verbatim>\<open>edges.get(k, [])\<close>.\<close>

definition edges_get :: "edges \<Rightarrow> string \<Rightarrow> node list" where
  "edges_get edges k = (case map_of edges k of None \<Rightarrow> [] | Some val \<Rightarrow> val)"

text \<open>
  The loop \<^verbatim>\<open>for x in op.input\<close> that records \<^verbatim>\<open>op\<close> as a successor of the producer of
  each non-empty input, and raises for an input without producer.
\<close>

fun add_input_edges ::
  "(string \<rightharpoonup> vertex) \<Rightarrow> node \<Rightarrow> string list \<Rightarrow> edges \<Rightarrow> error + edges" where
  "add_input_edges m op [] edges = Inr edges"
| "add_input_edges m op (x # xs) edges =
     (if x = [] then add_input_edges m op xs edges
      else case m x of
             None \<Rightarrow> Inl (DanglingReference (name op) x)
           | Some predecessor \<Rightarrow>
               add_input_edges m op xs
                 (AList.update (v_name predecessor)
                    (edges_get edges (v_name predecessor) @ [op]) edges))"

text \<open>The loop \<^verbatim>\<open>for op in nodes\<close> around it.\<close>

fun build_edges :: "(string \<rightharpoonup> vertex) \<Rightarrow> node list \<Rightarrow> edges \<Rightarrow> error + edges" where
  "build_edges m [] edges = Inr edges"
| "build_edges m (op # ops) edges =
     (case add_input_edges m op (node_input op) edges of
        Inl e \<Rightarrow> Inl e
      | Inr edges' \<Rightarrow> build_edges m ops edges')"

text \<open>
  The loop \<^verbatim>\<open>for y_ in outputs\<close>: the producer of every declared output gets an entry in
  \<^verbatim>\<open>edges\<close>; a declared output without producer is a KeyError of the dictionary lookup.
\<close>

fun add_output_entries ::
  "(string \<rightharpoonup> vertex) \<Rightarrow> named list \<Rightarrow> edges \<Rightarrow> error + edges" where
  "add_output_entries m [] edges = Inr edges"
| "add_output_entries m (y # ys) edges =
     (case m (pname y) of
        None \<Rightarrow> Inl (KeyError (pname y))
      | Some producer \<Rightarrow>
          add_output_entries m ys
            (if map_of edges (v_name producer) = None
             then AList.update (v_name producer) [] edges else edges))"

text \<open>The final loop \<^verbatim>\<open>for nd_ in input_nodes: recursive_helper(nd_)\<close>.\<close>

fun visit_all :: "edges \<Rightarrow> vertex list \<Rightarrow> dfs_state \<Rightarrow> error + dfs_state" where
  "visit_all edges [] st = Inr st"
| "visit_all edges (nd # nds) st =
     (case recursive_helper edges nd st of
        Inl e \<Rightarrow> Inl e
      | Inr st' \<Rightarrow> visit_all edges nds st')"

text \<open>
  \<^verbatim>\<open>topological_sort(container, nodes, inputs, outputs)\<close>; of the container only
  \<^verbatim>\<open>container.initializers\<close> is read, which is the first argument here.
\<close>

definition topological_sort ::
  "named list \<Rightarrow> node list \<Rightarrow> named list \<Rightarrow> named list \<Rightarrow> error + node list" where
  "topological_sort initializers nodes inputs outputs =
     (let input_nodes =
            DynNode ''placeholder'' (map pname inputs @ map pname initializers)
            # map Op (filter (\<lambda>nd. op_type nd = ''Constant'') nodes);
          op_output_map = op_output_map_of (map Op nodes @ input_nodes)
      in case build_edges op_output_map nodes [] of
           Inl e \<Rightarrow> Inl e
         | Inr edges \<Rightarrow>
             (case add_output_entries op_output_map outputs edges of
                Inl e \<Rightarrow> Inl e
              | Inr edges' \<Rightarrow>
                  (case visit_all edges' input_nodes
                          \<lparr>visited = {}, sorted_nodes = [], unfinished_nodes = {}\<rparr> of
                     Inl e \<Rightarrow> Inl e
                   | Inr st \<Rightarrow> Inr (sorted_nodes st))))"

section \<open>Unfolding model nodes\<close>

text \<open>
  \<^verbatim>\<open>_process_attr\<close>, the local function of \<^verbatim>\<open>_process_node_body\<close>. For an attribute
  named \<^verbatim>\<open>body\<close> the copy's graph loses its value-info records and its nodes, then
  \<^verbatim>\<open>_rename_graph(attr.g, prefix_name, new_attr.g)\<close> reads the original graph and extends
  the copy: its initializer list (still holding the copied originals) and its emptied
  value-info list. The declared inputs and outputs of the copy are renamed in place.
  Any other attribute is returned as it is.
\<close>

definition process_attr :: "attr \<Rightarrow> string \<Rightarrow> attr" where
  "process_attr a prefix_name =
     (if a_name a = ''body'' then
        let (new_nodes, new_initializer, new_value_info) =
              rename_graph (g a) prefix_name (g_initializer (g a), [])
        in Attr (a_name a)
             (Graph (g_name (g a)) new_nodes new_initializer new_value_info
                (rename_iter (g_input (g a)) prefix_name)
                (rename_iter (g_output (g a)) prefix_name))
      else a)"

text \<open>\<^verbatim>\<open>_process_node_body\<close>; the node is mutated and returned.\<close>

definition process_node_body :: "node \<Rightarrow> string \<Rightarrow> node" where
  "process_node_body nd prefix =
     (if \<forall>a \<in> set (attribute nd). a_name a \<noteq> ''body'' then nd
      else Node (name nd) (op_type nd) (node_input nd) (node_output nd)
             (map (\<lambda>a. process_attr a prefix) (attribute nd)))"

text \<open>
  The container of \<^verbatim>\<open>unfold_model_node\<close>. Its \<^verbatim>\<open>nodes\<close> are ordinary nodes and model
  nodes; \<^verbatim>\<open>hasattr(node, 'model')\<close> tells them apart, and a model node has a name and an
  embedded model. It has the \<^verbatim>\<open>initializer\<close> and \<^verbatim>\<open>value_info\<close> lists that
  \<^verbatim>\<open>_rename_graph\<close> extends, the set \<^verbatim>\<open>node_domain_version_pair_sets\<close>, and a parent.
\<close>

datatype cnode = OnnxNode node | ModelNode string model

fun c_name :: "cnode \<Rightarrow> string" where
  "c_name (OnnxNode nd) = name nd"
| "c_name (ModelNode n m) = n"

fun has_model :: "cnode \<Rightarrow> bool" where
  "has_model (OnnxNode nd) = False"
| "has_model (ModelNode n m) = True"

datatype container =
  Container (c_nodes: "cnode list") (c_initializer: "named list") (c_value_info: "named list")
            (node_domain_version_pair_sets: "(string \<times> int) set") (parent: "container option")

text \<open>
  The loop \<^verbatim>\<open>while top_containter.parent is not None\<close> finds the outermost container;
  reading and writing its set of pairs goes up the chain of parents.
\<close>

fun top_pair_sets :: "container \<Rightarrow> (string \<times> int) set" where
  "top_pair_sets (Container ns i v s None) = s"
| "top_pair_sets (Container ns i v s (Some p)) = top_pair_sets p"

fun set_top_pair_sets :: "container \<Rightarrow> (string \<times> int) set \<Rightarrow> container" where
  "set_top_pair_sets (Container ns i v s None) s' = Container ns i v s' None"
| "set_top_pair_sets (Container ns i v s (Some p)) s' =
     Container ns i v s (Some (set_top_pair_sets p s'))"

text \<open>
  The dictionary \<^verbatim>\<open>model_nodes\<close>, from the name of each model node to the node: a later
  model node of the same name replaces the earlier one and keeps its place in the
  iteration order, as \<open>AList.update\<close> does. The value kept is the embedded model, the
  node's name being the key.
\<close>

definition model_nodes_of :: "cnode list \<Rightarrow> (string \<times> model) list" where
  "model_nodes_of ns =
     foldl (\<lambda>d nd. case nd of ModelNode n m \<Rightarrow> AList.update n m d | OnnxNode x \<Rightarrow> d) [] ns"

text \<open>
  The loop \<^verbatim>\<open>for node in model_nodes.values()\<close>; its state is \<^verbatim>\<open>onnx_nodes\<close>, the two
  lists of the container and the set of the outermost container.
\<close>

fun unfold_loop ::
  "(string \<times> model) list \<Rightarrow> cnode list \<Rightarrow> pools \<Rightarrow> (string \<times> int) set
     \<Rightarrow> cnode list \<times> pools \<times> (string \<times> int) set" where
  "unfold_loop [] onnx_nodes c pairs = (onnx_nodes, c, pairs)"
| "unfold_loop ((node_name, mdl) # rest) onnx_nodes c pairs =
     (let (renamed_nodes, c') = rename_graph (graph mdl) node_name c;
          onnx_nodes' =
            onnx_nodes @ map (\<lambda>nd. OnnxNode (process_node_body nd node_name)) renamed_nodes;
          pairs' = pairs \<union> set (map (\<lambda>opset. (domain opset, version opset)) (opset_import mdl))
      in unfold_loop rest onnx_nodes' c' pairs')"

text \<open>\<^verbatim>\<open>unfold_model_node\<close>: the returned list, and the container after the call.\<close>

definition unfold_model_node :: "container \<Rightarrow> cnode list \<times> container" where
  "unfold_model_node container =
     (let model_nodes = model_nodes_of (c_nodes container);
          onnx_nodes = filter (\<lambda>nd. c_name nd \<notin> fst ` set model_nodes) (c_nodes container);
          (onnx_nodes', (initializer', value_info'), pairs') =
            unfold_loop model_nodes onnx_nodes
              (c_initializer container, c_value_info container) (top_pair_sets container)
      in (onnx_nodes',
          set_top_pair_sets
            (Container (c_nodes container) initializer' value_info'
               (node_domain_version_pair_sets container) (parent container))
            pairs'))"

section \<open>Merging models\<close>

text \<open>The prefix of the model at position \<open>i\<close>: \<^verbatim>\<open>"g{}".format(i + 1)\<close>.\<close>

definition mdl_prefix :: "nat \<Rightarrow> string" where
  "mdl_prefix i = ''g'' @ string_of_nat (i + 1)"

text \<open>
  The named tuples \<^verbatim>\<open>ModelPort(input, output)\<close> handed to a caller's \<^verbatim>\<open>io_mapping\<close>, one
  per model, and the dictionary it returns.
\<close>

type_synonym model_port = "string list \<times> string list"

fun ports_of :: "model list \<Rightarrow> nat \<Rightarrow> model_port list" where
  "ports_of [] idx = []"
| "ports_of (m # ms) idx =
     (map (\<lambda>x. merge_name (mdl_prefix idx) (pname x)) (g_input (graph m)),
      map (\<lambda>y. merge_name (mdl_prefix idx) (pname y)) (g_output (graph m)))
     # ports_of ms (Suc idx)"

text \<open>
  The default wiring. The inner loop goes through the declared inputs of model
  \<open>idx + 1\<close> with their positions; an input not yet in \<^verbatim>\<open>port_mapping\<close> is mapped to the
  declared output of model \<open>idx\<close> at the same position, and a position beyond the
  outputs is the IndexError of \<^verbatim>\<open>graph.output[_i]\<close>.
\<close>

fun wire_inputs ::
  "string \<Rightarrow> string \<Rightarrow> named list \<Rightarrow> nat \<Rightarrow> named list \<Rightarrow> (string \<rightharpoonup> string)
     \<Rightarrow> error + (string \<rightharpoonup> string)" where
  "wire_inputs next_prefix prev_prefix outs i [] port_mapping = Inr port_mapping"
| "wire_inputs next_prefix prev_prefix outs i (x # xs) port_mapping =
     (let iname = merge_name next_prefix (pname x) in
      if port_mapping iname = None then
        (if i < length outs then
           wire_inputs next_prefix prev_prefix outs (Suc i) xs
             (port_mapping(iname \<mapsto> merge_name prev_prefix (pname (outs ! i))))
         else Inl IndexError)
      else wire_inputs next_prefix prev_prefix outs (Suc i) xs port_mapping)"

fun wire_models :: "model list \<Rightarrow> nat \<Rightarrow> (string \<rightharpoonup> string) \<Rightarrow> error + (string \<rightharpoonup> string)" where
  "wire_models (m # m' # ms) idx port_mapping =
     (case wire_inputs (mdl_prefix (idx + 1)) (mdl_prefix idx) (g_output (graph m)) 0
             (g_input (graph m')) port_mapping of
        Inl e \<Rightarrow> Inl e
      | Inr port_mapping' \<Rightarrow> wire_models (m' # ms) (Suc idx) port_mapping')"
| "wire_models ms idx port_mapping = Inr port_mapping"

text \<open>
  The loop that fills the node list and the container: the model's own initializers and
  value-info records first, then, through \<^verbatim>\<open>_rename_graph\<close>, their renamed copies.
\<close>

fun collect_nodes :: "model list \<Rightarrow> nat \<Rightarrow> node list \<Rightarrow> pools \<Rightarrow> node list \<times> pools" where
  "collect_nodes [] idx nds c = (nds, c)"
| "collect_nodes (m # ms) idx nds c =
     (let c1 = (fst c @ g_initializer (graph m), snd c @ g_value_info (graph m));
          (renamed, c2) = rename_graph (graph m) (mdl_prefix idx) c1
      in collect_nodes ms (Suc idx) (nds @ renamed) c2)"

text \<open>The rewrite of one node's inputs through \<^verbatim>\<open>port_mapping\<close>.\<close>

definition rewire :: "(string \<rightharpoonup> string) \<Rightarrow> node \<Rightarrow> node" where
  "rewire port_mapping n =
     (if \<exists>i \<in> set (node_input n). port_mapping i \<noteq> None then
        Node (name n) (op_type n)
          (map (\<lambda>i. case port_mapping i of Some oname \<Rightarrow> oname | None \<Rightarrow> i) (node_input n))
          (node_output n) (attribute n)
      else n)"

text \<open>The loop over the models that joins the graph names and keeps the first opset of each domain.\<close>

fun add_opsets :: "opset list \<Rightarrow> string set \<times> opset list \<Rightarrow> string set \<times> opset list" where
  "add_opsets [] acc = acc"
| "add_opsets (ops # rest) (domains, opsets) =
     (if domain ops \<notin> domains then add_opsets rest (insert (domain ops) domains, opsets @ [ops])
      else add_opsets rest (domains, opsets))"

fun join_meta ::
  "model list \<Rightarrow> string \<times> string set \<times> opset list \<Rightarrow> string \<times> string set \<times> opset list" where
  "join_meta [] acc = acc"
| "join_meta (mdl # mdls) (nm, acc) =
     join_meta mdls
       (if nm \<noteq> [] then nm @ ''_'' @ g_name (graph mdl) else g_name (graph mdl),
        add_opsets (opset_import mdl) acc)"

text \<open>
  \<^verbatim>\<open>join_models(*models, io_mapping=None)\<close>. With no model at all the first index
  \<^verbatim>\<open>mdl_prefix[0]\<close> raises. \<^verbatim>\<open>helper.make_graph\<close> and \<^verbatim>\<open>helper.make_model\<close> of the onnx
  library store their arguments in the new graph and model.
\<close>

definition join_models ::
  "model list \<Rightarrow> (model_port list \<Rightarrow> (string \<rightharpoonup> string)) option \<Rightarrow> error + model" where
  "join_models models io_mapping =
     (if models = [] then Inl IndexError
      else
        let inputs = rename_iter (g_input (graph (hd models))) (mdl_prefix 0);
            outputs = rename_iter (g_output (graph (last models)))
                        (mdl_prefix (length models - 1));
            port_mapping = (case io_mapping of None \<Rightarrow> Map.empty
                            | Some f \<Rightarrow> f (ports_of models 0))
        in case wire_models models 0 port_mapping of
             Inl e \<Rightarrow> Inl e
           | Inr port_mapping' \<Rightarrow>
               let (nds, container) = collect_nodes models 0 [] ([], []);
                   nds' = map (rewire port_mapping') nds;
                   (nm, domains, opsets) = join_meta models ([], {}, []);
                   inits = remove_unused_initializers nds' (fst container) {}
               in Inr (Model (Graph nm nds' inits (snd container) inputs outputs) opsets))"

section \<open>Notions used in the statements\<close>

text \<open>
  The tensor names that have a producer: an output of some node, a declared graph input
  or an initializer.
\<close>

definition produced :: "named list \<Rightarrow> node list \<Rightarrow> named list \<Rightarrow> string set" where
  "produced initializers nds inputs =
     (\<Union>nd \<in> set nds. set (node_output nd)) \<union> pname ` set inputs \<union> pname ` set initializers"

text \<open>
  The data dependencies among the nodes of a list: the pairs (producer, consumer) where
  some non-empty input of the consumer is an output of the producer.
\<close>

definition depends :: "node list \<Rightarrow> (node \<times> node) list" where
  "depends nds =
     [(p, c). p \<leftarrow> nds, c \<leftarrow> nds,
              \<exists>t \<in> set (node_input c). t \<noteq> [] \<and> t \<in> set (node_output p)]"

text \<open>
  The graphs on which the traversal is shown below to return a topological order. Node
  names are unique and not empty (the precondition that the assertion in
  \<^verbatim>\<open>recursive_helper\<close> names); every non-empty input and every declared output has a
  producer; a non-empty tensor name is the output of one node only and then is no graph
  input or initializer (the invariant of the data model). The last two conditions are not
  part of any contract: they leave out the graphs on which the traversal loses nodes, those
  with a node named like the synthetic vertex and those with a node that is no
  \<^verbatim>\<open>Constant\<close> and has no non-empty input.
\<close>

definition well_formed :: "named list \<Rightarrow> node list \<Rightarrow> named list \<Rightarrow> named list \<Rightarrow> bool" where
  "well_formed initializers nds inputs outputs \<longleftrightarrow>
     distinct (map name nds) \<and> [] \<notin> set (map name nds)
   \<and> ''placeholder'' \<notin> set (map name nds)
   \<and> (\<forall>c \<in> set nds. \<forall>t \<in> set (node_input c).
         t \<noteq> [] \<longrightarrow> t \<in> produced initializers nds inputs)
   \<and> (\<forall>y \<in> set outputs. pname y \<in> produced initializers nds inputs)
   \<and> (\<forall>p \<in> set nds. \<forall>t \<in> set (node_output p).
         t \<noteq> [] \<longrightarrow> t \<notin> pname ` set inputs \<and> t \<notin> pname ` set initializers
                 \<and> (\<forall>q \<in> set nds. t \<in> set (node_output q) \<longrightarrow> q = p))
   \<and> (\<forall>c \<in> set nds. op_type c = ''Constant'' \<or> (\<exists>t \<in> set (node_input c). t \<noteq> []))"

text \<open>
  For the proofs about the traversal: \<open>feeds m k op\<close> says that \<open>op\<close> consumes a tensor
  whose registered producer is named \<open>k\<close>; \<open>edge_rel\<close> is the relation between vertex
  names that \<^verbatim>\<open>edges\<close> holds; \<open>topo\<close> says that every successor of a node of the list
  stands later in the list; \<open>dfs_inv\<close> is the invariant of the traversal state.
\<close>

definition feeds :: "(string \<rightharpoonup> vertex) \<Rightarrow> string \<Rightarrow> node \<Rightarrow> bool" where
  "feeds m k op \<longleftrightarrow> (\<exists>t \<in> set (node_input op). t \<noteq> [] \<and> (\<exists>p. m t = Some p \<and> v_name p = k))"

definition edge_rel :: "edges \<Rightarrow> (string \<times> string) set" where
  "edge_rel E = {(k, name s) | k s. s \<in> set (edges_get E k)}"

fun topo :: "edges \<Rightarrow> node list \<Rightarrow> bool" where
  "topo E [] = True"
| "topo E (x # xs) \<longleftrightarrow> (\<forall>s \<in> set (edges_get E (name x)). name s \<in> name ` set xs) \<and> topo E xs"

definition dfs_inv :: "edges \<Rightarrow> node set \<Rightarrow> dfs_state \<Rightarrow> bool" where
  "dfs_inv E N st \<longleftrightarrow>
     (\<forall>k \<in> visited st. \<forall>s \<in> set (edges_get E k). name s \<in> visited st)
   \<and> visited st \<inter> unfinished_nodes st = {}
   \<and> distinct (map name (sorted_nodes st))
   \<and> name ` set (sorted_nodes st) \<subseteq> visited st
   \<and> visited st \<subseteq> insert ''placeholder'' (name ` set (sorted_nodes st))
   \<and> set (sorted_nodes st) \<subseteq> N
   \<and> topo E (sorted_nodes st)"

definition edges_ok :: "edges \<Rightarrow> node set \<Rightarrow> bool" where
  "edges_ok E N \<longleftrightarrow>
     acyclic (edge_rel E) \<and> map_of E [] = None
   \<and> (\<forall>k. \<forall>s \<in> set (edges_get E k). s \<in> N \<and> name s \<noteq> ''placeholder'')"

definition vertex_ok :: "node set \<Rightarrow> vertex \<Rightarrow> bool" where
  "vertex_ok N v = (case v of DynNode k outs \<Rightarrow> k = ''placeholder''
                     | Op nd \<Rightarrow> nd \<in> N \<and> name nd \<noteq> ''placeholder'')"

section \<open>Renaming: properties\<close>

lemma rename_graph_length: "length (fst (rename_graph gr p c)) = length (g_node gr)"
  by (simp add: rename_graph_def)

lemma rename_graph_nth:
  "i < length (g_node gr) \<Longrightarrow> fst (rename_graph gr p c) ! i = io_rename (g_node gr ! i) p i"
  by (simp add: rename_graph_def nth_enumerate_eq)

lemma merge_name_neq_Nil: "merge_name p n \<noteq> []"
  by (simp add: merge_name_def)

lemma io_rename_sel [simp]:
  "name (io_rename nd p idx) =
     (if name nd = [] then merge_name p (''op'' @ string_of_nat idx) else merge_name p (name nd))"
  "op_type (io_rename nd p idx) = op_type nd"
  "node_input (io_rename nd p idx) =
     map (\<lambda>nm. if nm \<noteq> [] then merge_name p nm else []) (node_input nd)"
  "node_output (io_rename nd p idx) =
     map (\<lambda>nm. if nm \<noteq> [] then merge_name p nm else []) (node_output nd)"
  "attribute (io_rename nd p idx) = attribute nd"
  by (simp_all add: io_rename_def)

text \<open>
  Claim C6. In the node list that a renaming pass returns, under any prefix, every input
  slot and every output slot that is the empty string in the source node is the empty
  string in the renamed node, and so is not the string \<open>prefix_\<close>; the slots keep
  their positions.
\<close>

theorem rename_graph_keeps_empty_slots:
  assumes "k < length (g_node gr)"
  shows "length (node_input (fst (rename_graph gr p c) ! k)) = length (node_input (g_node gr ! k))
       \<and> length (node_output (fst (rename_graph gr p c) ! k)) = length (node_output (g_node gr ! k))
       \<and> (\<forall>i < length (node_input (g_node gr ! k)).
             node_input (g_node gr ! k) ! i = [] \<longrightarrow>
               node_input (fst (rename_graph gr p c) ! k) ! i = []
             \<and> node_input (fst (rename_graph gr p c) ! k) ! i \<noteq> p @ ''_'')
       \<and> (\<forall>i < length (node_output (g_node gr ! k)).
             node_output (g_node gr ! k) ! i = [] \<longrightarrow>
               node_output (fst (rename_graph gr p c) ! k) ! i = []
             \<and> node_output (fst (rename_graph gr p c) ! k) ! i \<noteq> p @ ''_'')"
  using assms by (simp add: rename_graph_nth)

theorem rename_graph_keeps_empty_slots_witness:
  "node_input (fst (rename_graph
      (Graph ''G'' [Node ''n'' ''Loop'' [[], ''x''] [''y'', []] []] [] [] [] []) ''g1'' ([], [])) ! 0)
     = [[], ''g1_x'']
   \<and> node_output (fst (rename_graph
      (Graph ''G'' [Node ''n'' ''Loop'' [[], ''x''] [''y'', []] []] [] [] [] []) ''g1'' ([], [])) ! 0)
     = [''g1_y'', []]"
  using rename_graph_keeps_empty_slots
    [of 0 "Graph ''G'' [Node ''n'' ''Loop'' [[], ''x''] [''y'', []] []] [] [] [] []" "''g1''" "([], [])"]
  by (simp add: rename_graph_def io_rename_def merge_name_def enumerate_eq_zip)

text \<open>
  Claim C7. The node at position \<open>i\<close> of the source node sequence is renamed under prefix
  \<open>p\<close> to \<open>p_op<i>\<close> (\<open>i\<close> in decimal, counted from zero) when its own name is empty,
  and to \<open>p_n\<close> when its name is the non-empty \<open>n\<close>. \<^verbatim>\<open>unfold_model_node\<close> passes
  the renamed node through \<^verbatim>\<open>_process_node_body\<close>, which keeps the name.
\<close>

theorem rename_graph_node_name:
  assumes "i < length (g_node gr)"
  shows "name (fst (rename_graph gr p c) ! i) =
           (if name (g_node gr ! i) = [] then p @ ''_op'' @ string_of_nat i
            else p @ ''_'' @ name (g_node gr ! i))
       \<and> name (process_node_body (fst (rename_graph gr p c) ! i) p) =
           name (fst (rename_graph gr p c) ! i)"
  using assms by (simp add: rename_graph_nth merge_name_def process_node_body_def)

theorem rename_graph_node_name_witness:
  "name (fst (rename_graph
      (Graph ''G'' [Node ''a'' ''Relu'' [''x''] [''y''] [], Node [] ''Relu'' [''y''] [''z''] []]
         [] [] [] []) ''m'' ([], [])) ! 1) = ''m_op1''
   \<and> name (fst (rename_graph
      (Graph ''G'' [Node ''a'' ''Relu'' [''x''] [''y''] [], Node [] ''Relu'' [''y''] [''z''] []]
         [] [] [] []) ''m'' ([], [])) ! 0) = ''m_a''"
  using rename_graph_node_name
    [of 1 "Graph ''G'' [Node ''a'' ''Relu'' [''x''] [''y''] [], Node [] ''Relu'' [''y''] [''z''] []]
         [] [] [] []" "''m''" "([], [])"]
    rename_graph_node_name
    [of 0 "Graph ''G'' [Node ''a'' ''Relu'' [''x''] [''y''] [], Node [] ''Relu'' [''y''] [''z''] []]
         [] [] [] []" "''m''" "([], [])"]
  by (simp add: string_of_nat.simps)

section \<open>Pruning: properties\<close>

lemma nodes_input_set_foldl:
  "foldl (\<lambda>s nd. s \<union> set (node_input nd)) S nodes = S \<union> (\<Union>nd \<in> set nodes. set (node_input nd))"
  by (induction nodes arbitrary: S) auto

text \<open>
  Claim C8. The pruner returns the initializers of its argument, in their order, whose name
  is an input of at least one node of the list or is in the keep-name set, and no others.
  The source function writes to a local set and builds a new list only; nodes and
  initializers are read, which the embedding shows by returning nothing but the new list.
\<close>

theorem remove_unused_initializers_exact:
  "remove_unused_initializers nodes initializers reversed_names =
     filter (\<lambda>intlz. (\<exists>nd \<in> set nodes. pname intlz \<in> set (node_input nd))
                      \<or> pname intlz \<in> reversed_names) initializers"
  by (simp add: remove_unused_initializers_def nodes_input_set_foldl)

theorem remove_unused_initializers_exact_witness:
  "remove_unused_initializers [Node ''n'' ''Add'' [''x'', ''w''] [''y''] []]
     [Named ''w'' 1, Named ''dead'' 2, Named ''kept'' 3] {''kept''}
   = [Named ''w'' 1, Named ''kept'' 3]"
  using remove_unused_initializers_exact
    [of "[Node ''n'' ''Add'' [''x'', ''w''] [''y''] []]"
        "[Named ''w'' 1, Named ''dead'' 2, Named ''kept'' 3]" "{''kept''}"]
  by simp

section \<open>Topological sort: the producer index\<close>

lemma register_outputs_apply:
  "register_outputs m nd t = (if t \<in> set (v_output nd) then Some nd else m t)"
proof -
  have "foldl (\<lambda>m ky. m(ky \<mapsto> nd)) m ks t = (if t \<in> set ks then Some nd else m t)" for ks
    by (induction ks arbitrary: m) auto
  then show ?thesis by (simp add: register_outputs_def)
qed

lemma op_output_foldl_dom:
  "dom (foldl register_outputs m0 vs) = dom m0 \<union> (\<Union>v \<in> set vs. set (v_output v))"
proof (induction vs arbitrary: m0)
  case Nil
  show ?case by simp
next
  case (Cons v vs)
  have "dom (register_outputs m0 v) = dom m0 \<union> set (v_output v)"
    by (auto simp: register_outputs_apply domIff)
  with Cons show ?case by auto
qed

lemma op_output_foldl_Some:
  "foldl register_outputs m0 vs t = Some v
     \<Longrightarrow> m0 t = Some v \<or> (v \<in> set vs \<and> t \<in> set (v_output v))"
proof (induction vs arbitrary: m0)
  case Nil
  then show ?case by simp
next
  case (Cons w vs)
  from Cons.prems have "foldl register_outputs (register_outputs m0 w) vs t = Some v"
    by simp
  from Cons.IH [OF this]
  show ?case by (auto simp: register_outputs_apply split: if_splits)
qed

lemma op_output_map_of_dom:
  "dom (op_output_map_of vs) = (\<Union>v \<in> set vs. set (v_output v))"
  by (simp add: op_output_map_of_def op_output_foldl_dom)

lemma op_output_map_of_Some:
  "op_output_map_of vs t = Some v \<Longrightarrow> v \<in> set vs \<and> t \<in> set (v_output v)"
  using op_output_foldl_Some [of Map.empty vs t v] by (simp add: op_output_map_of_def)

lemma op_output_map_dom_produced:
  "dom (op_output_map_of (map Op nodes @
          DynNode ''placeholder'' (map pname inputs @ map pname initializers)
          # map Op (filter (\<lambda>nd. op_type nd = ''Constant'') nodes)))
     = produced initializers nodes inputs"
  by (auto simp: op_output_map_of_dom produced_def)

section \<open>Topological sort: building the successor lists\<close>

lemma add_input_edges_dangling:
  "\<exists>t \<in> set xs. t \<noteq> [] \<and> m t = None \<Longrightarrow>
     \<exists>t. add_input_edges m op xs E = Inl (DanglingReference (name op) t)
         \<and> t \<in> set xs \<and> t \<noteq> [] \<and> m t = None"
proof (induction xs arbitrary: E)
  case Nil
  then show ?case by simp
next
  case (Cons x xs)
  show ?case
  proof (cases "x \<noteq> [] \<and> m x = None")
    case True
    then show ?thesis by auto
  next
    case False
    with Cons.prems have "\<exists>t \<in> set xs. t \<noteq> [] \<and> m t = None" by auto
    from Cons.IH [OF this] False show ?thesis
      by (cases "x = []") (auto split: option.splits)
  qed
qed

lemma add_input_edges_ok:
  "\<forall>t \<in> set xs. t \<noteq> [] \<longrightarrow> m t \<noteq> None \<Longrightarrow> \<exists>E'. add_input_edges m op xs E = Inr E'"
  by (induction xs arbitrary: E) (auto split: option.splits)

lemma build_edges_dangling:
  "\<exists>op \<in> set ops. \<exists>t \<in> set (node_input op). t \<noteq> [] \<and> m t = None \<Longrightarrow>
     \<exists>op t. build_edges m ops E = Inl (DanglingReference (name op) t)
         \<and> op \<in> set ops \<and> t \<in> set (node_input op) \<and> t \<noteq> [] \<and> m t = None"
proof (induction ops arbitrary: E)
  case Nil
  then show ?case by simp
next
  case (Cons op ops)
  show ?case
  proof (cases "\<exists>t \<in> set (node_input op). t \<noteq> [] \<and> m t = None")
    case True
    from add_input_edges_dangling [OF this, of op E] show ?thesis by auto
  next
    case False
    then obtain E' where E': "add_input_edges m op (node_input op) E = Inr E'"
      using add_input_edges_ok [of "node_input op" m op E] by auto
    from False Cons.prems
    have "\<exists>op \<in> set ops. \<exists>t \<in> set (node_input op). t \<noteq> [] \<and> m t = None" by auto
    from Cons.IH [OF this, of E'] E' show ?thesis by auto
  qed
qed

lemma edges_get_update:
  "edges_get (AList.update k v E) k' = (if k' = k then v else edges_get E k')"
  by (simp add: edges_get_def update_conv')

lemma add_input_edges_succs:
  "add_input_edges m op xs E = Inr E' \<Longrightarrow>
     set (edges_get E' k) =
       set (edges_get E k) \<union>
       {c. c = op \<and> (\<exists>t \<in> set xs. t \<noteq> [] \<and> (\<exists>p. m t = Some p \<and> v_name p = k))}"
proof (induction xs arbitrary: E)
  case Nil
  then show ?case by simp
next
  case (Cons x xs)
  show ?case
  proof (cases "x = []")
    case True
    with Cons show ?thesis by simp
  next
    case False
    with Cons.prems obtain p where p: "m x = Some p"
      and r: "add_input_edges m op xs
                (AList.update (v_name p) (edges_get E (v_name p) @ [op]) E) = Inr E'"
      by (auto split: option.splits)
    from Cons.IH [OF r] False p show ?thesis
      by (auto simp: edges_get_update)
  qed
qed

lemma add_input_edges_keys:
  "add_input_edges m op xs E = Inr E' \<Longrightarrow>
     fst ` set E' \<subseteq> fst ` set E \<union> {v_name p | p. p \<in> ran m}"
proof (induction xs arbitrary: E)
  case Nil
  then show ?case by auto
next
  case (Cons x xs)
  show ?case
  proof (cases "x = []")
    case True
    with Cons show ?thesis by simp
  next
    case False
    with Cons.prems obtain p where p: "m x = Some p"
      and r: "add_input_edges m op xs
                (AList.update (v_name p) (edges_get E (v_name p) @ [op]) E) = Inr E'"
      by (auto split: option.splits)
    from p have "p \<in> ran m" by (auto simp: ran_def)
    with Cons.IH [OF r] show ?thesis
      by (auto simp: dom_update)
  qed
qed

lemma build_edges_succs:
  "build_edges m ops E = Inr E' \<Longrightarrow>
     set (edges_get E' k) = set (edges_get E k) \<union> {op \<in> set ops. feeds m k op}"
proof (induction ops arbitrary: E)
  case Nil
  then show ?case by simp
next
  case (Cons op ops)
  from Cons.prems obtain E1 where
    a: "add_input_edges m op (node_input op) E = Inr E1" and b: "build_edges m ops E1 = Inr E'"
    by (auto split: sum.splits)
  from Cons.IH [OF b] add_input_edges_succs [OF a, of k] show ?case
    by (auto simp: feeds_def)
qed

lemma build_edges_keys:
  "build_edges m ops E = Inr E' \<Longrightarrow> fst ` set E' \<subseteq> fst ` set E \<union> {v_name p | p. p \<in> ran m}"
proof (induction ops arbitrary: E)
  case Nil
  then show ?case by auto
next
  case (Cons op ops)
  from Cons.prems obtain E1 where
    a: "add_input_edges m op (node_input op) E = Inr E1" and b: "build_edges m ops E1 = Inr E'"
    by (auto split: sum.splits)
  from Cons.IH [OF b] add_input_edges_keys [OF a] show ?case
    by blast
qed

lemma build_edges_ok:
  "\<forall>op \<in> set ops. \<forall>t \<in> set (node_input op). t \<noteq> [] \<longrightarrow> m t \<noteq> None \<Longrightarrow>
     \<exists>E'. build_edges m ops E = Inr E'"
proof (induction ops arbitrary: E)
  case Nil
  show ?case by simp
next
  case (Cons op ops)
  from Cons.prems obtain E1 where "add_input_edges m op (node_input op) E = Inr E1"
    using add_input_edges_ok [of "node_input op" m op E] by auto
  with Cons show ?case by auto
qed

lemma add_output_entries_ok:
  "\<forall>y \<in> set ys. m (pname y) \<noteq> None \<Longrightarrow> \<exists>E'. add_output_entries m ys E = Inr E'"
  by (induction ys arbitrary: E) (auto split: option.splits)

lemma add_output_entries_succs:
  "add_output_entries m ys E = Inr E' \<Longrightarrow> edges_get E' k = edges_get E k"
proof (induction ys arbitrary: E)
  case Nil
  then show ?case by simp
next
  case (Cons y ys)
  from Cons.prems obtain p where p: "m (pname y) = Some p"
    and r: "add_output_entries m ys
              (if map_of E (v_name p) = None then AList.update (v_name p) [] E else E) = Inr E'"
    by (auto split: option.splits)
  have "edges_get (if map_of E (v_name p) = None then AList.update (v_name p) [] E else E) k
          = edges_get E k"
    by (simp add: edges_get_def update_conv')
  with Cons.IH [OF r] show ?case
    by simp
qed

lemma add_output_entries_keys:
  "add_output_entries m ys E = Inr E' \<Longrightarrow>
     fst ` set E' \<subseteq> fst ` set E \<union> {v_name p | p. p \<in> ran m}"
proof (induction ys arbitrary: E)
  case Nil
  then show ?case by auto
next
  case (Cons y ys)
  from Cons.prems obtain p where p: "m (pname y) = Some p"
    and r: "add_output_entries m ys
              (if map_of E (v_name p) = None then AList.update (v_name p) [] E else E) = Inr E'"
    by (auto split: option.splits)
  from p have "p \<in> ran m" by (auto simp: ran_def)
  with Cons.IH [OF r] show ?case
    by (auto simp: dom_update split: if_splits)
qed

text \<open>
  Claim C4. When some node of the list has a non-empty input that no node outputs and that
  is neither a declared graph input nor an initializer, the sort fails with the
  dangling-reference error, and the error carries the name of such a node and such a
  tensor name of its input list.
\<close>

theorem topological_sort_dangling:
  assumes "\<exists>op \<in> set nodes. \<exists>t \<in> set (node_input op).
             t \<noteq> [] \<and> t \<notin> produced initializers nodes inputs"
  shows "\<exists>op t. topological_sort initializers nodes inputs outputs
                   = Inl (DanglingReference (name op) t)
               \<and> op \<in> set nodes \<and> t \<in> set (node_input op) \<and> t \<noteq> []
               \<and> t \<notin> produced initializers nodes inputs"
proof -
  let ?m = "op_output_map_of (map Op nodes @
          DynNode ''placeholder'' (map pname inputs @ map pname initializers)
          # map Op (filter (\<lambda>nd. op_type nd = ''Constant'') nodes))"
  have none: "?m t = None \<longleftrightarrow> t \<notin> produced initializers nodes inputs" for t
    using op_output_map_dom_produced [of nodes inputs initializers] by (metis domIff)
  from assms have "\<exists>op \<in> set nodes. \<exists>t \<in> set (node_input op). t \<noteq> [] \<and> ?m t = None"
    by (simp add: none)
  from build_edges_dangling [OF this, of "[]"] obtain op t where
    "build_edges ?m nodes [] = Inl (DanglingReference (name op) t)"
    "op \<in> set nodes" "t \<in> set (node_input op)" "t \<noteq> []" "?m t = None"
    by blast
  then show ?thesis
    by (auto simp: topological_sort_def Let_def none)
qed

theorem topological_sort_dangling_witness:
  "topological_sort [] [Node ''A'' ''Relu'' [''x'', ''u''] [''a''] []] [Named ''x'' 0] [Named ''a'' 0]
     = Inl (DanglingReference ''A'' ''u'')"
  using topological_sort_dangling
    [of "[Node ''A'' ''Relu'' [''x'', ''u''] [''a''] []]" "[]" "[Named ''x'' 0]" "[Named ''a'' 0]"]
  by (auto simp: produced_def)

section \<open>Topological sort: the traversal\<close>

lemma edges_get_None: "map_of E k = None \<Longrightarrow> edges_get E k = []"
  by (simp add: edges_get_def)

lemma edges_get_Some: "map_of E k = Some ss \<Longrightarrow> edges_get E k = ss"
  by (simp add: edges_get_def)

lemma edge_relI: "s \<in> set (edges_get E k) \<Longrightarrow> (k, name s) \<in> edge_rel E"
  by (auto simp: edge_rel_def)

lemma dfs_finish:
  assumes ok: "edges_ok E N" and vok: "vertex_ok N n"
    and inv2: "dfs_inv E N st2"
    and unf: "v_name n \<in> unfinished_nodes st2"
    and succs: "name ` set (edges_get E (v_name n)) \<subseteq> visited st2"
  shows "dfs_inv E N
           (st2\<lparr>unfinished_nodes := unfinished_nodes st2 - {v_name n},
                visited := insert (v_name n) (visited st2),
                sorted_nodes := (case n of DynNode k outs \<Rightarrow> sorted_nodes st2
                                 | Op nd \<Rightarrow> nd # sorted_nodes st2)\<rparr>)"
proof -
  let ?V = "visited st2" and ?S = "sorted_nodes st2" and ?U = "unfinished_nodes st2"
  from inv2 have closed: "\<forall>k \<in> ?V. \<forall>s \<in> set (edges_get E k). name s \<in> ?V"
    and disj: "?V \<inter> ?U = {}"
    and dist: "distinct (map name ?S)"
    and sub1: "name ` set ?S \<subseteq> ?V"
    and sub2: "?V \<subseteq> insert ''placeholder'' (name ` set ?S)"
    and subN: "set ?S \<subseteq> N"
    and tp: "topo E ?S"
    by (simp_all add: dfs_inv_def)
  from disj unf have nv: "v_name n \<notin> ?V" by auto
  from ok have noph: "\<forall>k. \<forall>s \<in> set (edges_get E k). name s \<noteq> ''placeholder''"
    by (simp add: edges_ok_def)
  have c1: "\<forall>k \<in> insert (v_name n) ?V. \<forall>s \<in> set (edges_get E k). name s \<in> insert (v_name n) ?V"
    using closed succs by auto
  have c2: "insert (v_name n) ?V \<inter> (?U - {v_name n}) = {}"
    using disj by auto
  show ?thesis
  proof (cases n)
    case (DynNode k outs)
    with vok have k: "k = ''placeholder''" by (simp add: vertex_ok_def)
    from DynNode k c1 c2 dist sub1 sub2 subN tp show ?thesis
      by (auto simp: dfs_inv_def)
  next
    case (Op nd)
    with vok have ndN: "nd \<in> N" by (simp add: vertex_ok_def)
    from Op nv sub1 have fresh: "name nd \<notin> name ` set ?S" by auto
    have head: "\<forall>s \<in> set (edges_get E (name nd)). name s \<in> name ` set ?S"
    proof
      fix s assume s: "s \<in> set (edges_get E (name nd))"
      with succs Op have "name s \<in> ?V" by auto
      moreover from s noph have "name s \<noteq> ''placeholder''" by blast
      ultimately show "name s \<in> name ` set ?S" using sub2 by auto
    qed
    from Op c1 c2 dist sub1 sub2 subN tp ndN fresh head show ?thesis
      by (auto simp: dfs_inv_def)
  qed
qed

lemma dfs_correct:
  "edges_ok E N \<Longrightarrow> dfs_inv E N st \<Longrightarrow> vertex_ok N n \<Longrightarrow>
     (\<forall>u \<in> unfinished_nodes st. (u, v_name n) \<in> (edge_rel E)\<^sup>+) \<Longrightarrow>
     \<exists>st'. recursive_helper E n st = Inr st' \<and> dfs_inv E N st'
         \<and> unfinished_nodes st' = unfinished_nodes st
         \<and> visited st \<subseteq> visited st' \<and> v_name n \<in> visited st'"
  "edges_ok E N \<Longrightarrow> dfs_inv E N st \<Longrightarrow> set ss \<subseteq> set (edges_get E k) \<Longrightarrow>
     (\<forall>u \<in> unfinished_nodes st. \<forall>s \<in> set ss. (u, name s) \<in> (edge_rel E)\<^sup>+) \<Longrightarrow>
     \<exists>st'. visit_successors E ss st = Inr st' \<and> dfs_inv E N st'
         \<and> unfinished_nodes st' = unfinished_nodes st
         \<and> visited st \<subseteq> visited st' \<and> name ` set ss \<subseteq> visited st'"
proof (induction E n st and E ss st arbitrary: and k rule: recursive_helper_visit_successors.induct)
  case (1 E n st)
  note ok = "1.prems"(1) and inv = "1.prems"(2) and vok = "1.prems"(3) and path = "1.prems"(4)
  show ?case
  proof (cases "v_name n \<in> visited st")
    case True
    with inv show ?thesis by (simp add: recursive_helper.simps)
  next
    case nv: False
    have nu: "v_name n \<notin> unfinished_nodes st"
    proof
      assume "v_name n \<in> unfinished_nodes st"
      with path have "(v_name n, v_name n) \<in> (edge_rel E)\<^sup>+" by blast
      with ok show False by (simp add: edges_ok_def acyclic_def)
    qed
    let ?st1 = "st\<lparr>unfinished_nodes := insert (v_name n) (unfinished_nodes st)\<rparr>"
    from inv nv have inv1: "dfs_inv E N ?st1"
      by (auto simp: dfs_inv_def)
    have "\<exists>st2. (case map_of E (v_name n) of None \<Rightarrow> Inr ?st1
                  | Some succs \<Rightarrow> if v_name n = [] then Inl AssertionError
                                  else visit_successors E succs ?st1) = Inr st2
             \<and> dfs_inv E N st2 \<and> unfinished_nodes st2 = insert (v_name n) (unfinished_nodes st)
             \<and> visited st \<subseteq> visited st2
             \<and> name ` set (edges_get E (v_name n)) \<subseteq> visited st2"
    proof (cases "map_of E (v_name n)")
      case None
      with inv1 show ?thesis by (simp add: edges_get_None)
    next
      case (Some succs)
      with ok have ne: "v_name n \<noteq> []" by (auto simp: edges_ok_def)
      have eg: "edges_get E (v_name n) = succs" using Some by (rule edges_get_Some)
      have path1: "\<forall>u \<in> unfinished_nodes ?st1. \<forall>s \<in> set succs. (u, name s) \<in> (edge_rel E)\<^sup>+"
      proof (intro ballI)
        fix u s assume u: "u \<in> unfinished_nodes ?st1" and s: "s \<in> set succs"
        from s eg have e: "(v_name n, name s) \<in> edge_rel E" by (auto intro: edge_relI)
        show "(u, name s) \<in> (edge_rel E)\<^sup>+"
        proof (cases "u = v_name n")
          case True
          with e show ?thesis by auto
        next
          case False
          with u path have "(u, v_name n) \<in> (edge_rel E)\<^sup>+" by auto
          then show ?thesis using e by (rule trancl_into_trancl)
        qed
      qed
      have sub: "set succs \<subseteq> set (edges_get E (v_name n))" using eg by simp
      from "1.IH" [OF nv nu refl Some ne ok inv1 sub path1] Some ne eg
      show ?thesis by auto
    qed
    then obtain st2 where
      r: "(case map_of E (v_name n) of None \<Rightarrow> Inr ?st1
           | Some succs \<Rightarrow> if v_name n = [] then Inl AssertionError
                           else visit_successors E succs ?st1) = Inr st2"
      and inv2: "dfs_inv E N st2"
      and u2: "unfinished_nodes st2 = insert (v_name n) (unfinished_nodes st)"
      and v2: "visited st \<subseteq> visited st2"
      and s2: "name ` set (edges_get E (v_name n)) \<subseteq> visited st2"
      by blast
    let ?st' = "st2\<lparr>unfinished_nodes := unfinished_nodes st2 - {v_name n},
                visited := insert (v_name n) (visited st2),
                sorted_nodes := (case n of DynNode k outs \<Rightarrow> sorted_nodes st2
                                 | Op nd \<Rightarrow> nd # sorted_nodes st2)\<rparr>"
    from u2 have "v_name n \<in> unfinished_nodes st2" by simp
    from dfs_finish [OF ok vok inv2 this s2] have inv': "dfs_inv E N ?st'" .
    have res: "recursive_helper E n st = Inr ?st'"
      using nv nu r by (simp add: recursive_helper.simps [of E n st] Let_def)
    from u2 nu have "unfinished_nodes ?st' = unfinished_nodes st" by auto
    with res inv' v2 show ?thesis by auto
  qed
next
  case (2 E st)
  then show ?case by simp
next
  case (3 E s ss st)
  note ok = "3.prems"(1) and inv = "3.prems"(2) and sub = "3.prems"(3) and path = "3.prems"(4)
  from sub ok have "vertex_ok N (Op s)"
    by (auto simp: edges_ok_def vertex_ok_def)
  moreover from path have "\<forall>u \<in> unfinished_nodes st. (u, v_name (Op s)) \<in> (edge_rel E)\<^sup>+"
    by simp
  ultimately obtain b where b: "recursive_helper E (Op s) st = Inr b"
    and invb: "dfs_inv E N b" and ub: "unfinished_nodes b = unfinished_nodes st"
    and vb: "visited st \<subseteq> visited b" and sb: "name s \<in> visited b"
    using "3.IH"(1) [OF ok inv] by auto
  from sub have sub': "set ss \<subseteq> set (edges_get E k)" by simp
  from path ub have "\<forall>u \<in> unfinished_nodes b. \<forall>s \<in> set ss. (u, name s) \<in> (edge_rel E)\<^sup>+"
    by simp
  from "3.IH"(2) [OF b ok invb sub' this] obtain st' where
    "visit_successors E ss b = Inr st'" "dfs_inv E N st'"
    "unfinished_nodes st' = unfinished_nodes b" "visited b \<subseteq> visited st'"
    "name ` set ss \<subseteq> visited st'"
    by blast
  with b ub vb sb show ?case by auto
qed

lemma visit_all_correct:
  "edges_ok E N \<Longrightarrow> dfs_inv E N st \<Longrightarrow> unfinished_nodes st = {} \<Longrightarrow>
     \<forall>v \<in> set vs. vertex_ok N v \<Longrightarrow>
     \<exists>st'. visit_all E vs st = Inr st' \<and> dfs_inv E N st' \<and> unfinished_nodes st' = {}
         \<and> visited st \<subseteq> visited st' \<and> v_name ` set vs \<subseteq> visited st'"
proof (induction vs arbitrary: st)
  case Nil
  then show ?case by simp
next
  case (Cons v vs)
  from Cons.prems have "vertex_ok N v" by simp
  with dfs_correct(1) [OF Cons.prems(1,2), of v] Cons.prems(3)
  obtain b where b: "recursive_helper E v st = Inr b" and invb: "dfs_inv E N b"
    and ub: "unfinished_nodes b = {}" and vb: "visited st \<subseteq> visited b"
    and sb: "v_name v \<in> visited b"
    by auto
  from Cons.prems have "\<forall>v \<in> set vs. vertex_ok N v" by simp
  from Cons.IH [OF Cons.prems(1) invb ub this] obtain st' where
    "visit_all E vs b = Inr st'" "dfs_inv E N st'" "unfinished_nodes st' = {}"
    "visited b \<subseteq> visited st'" "v_name ` set vs \<subseteq> visited st'"
    by blast
  with b vb sb show ?case by auto
qed

section \<open>Topological sort: the result\<close>

lemma topo_nth:
  "topo E S \<Longrightarrow> i < length S \<Longrightarrow> s \<in> set (edges_get E (name (S ! i))) \<Longrightarrow>
     \<exists>j. i < j \<and> j < length S \<and> name (S ! j) = name s"
proof (induction S arbitrary: i)
  case Nil
  then show ?case by simp
next
  case (Cons x xs)
  show ?case
  proof (cases i)
    case 0
    with Cons.prems have "name s \<in> name ` set xs" by auto
    then obtain y where "y \<in> set xs" "name y = name s" by auto
    then obtain j where "j < length xs" "xs ! j = y" by (auto simp: in_set_conv_nth)
    with \<open>name y = name s\<close> 0 show ?thesis by (intro exI [of _ "Suc j"]) auto
  next
    case (Suc i')
    with Cons.prems have "topo E xs" "i' < length xs" "s \<in> set (edges_get E (name (xs ! i')))"
      by auto
    from Cons.IH [OF this] obtain j where "i' < j" "j < length xs" "name (xs ! j) = name s"
      by blast
    with Suc show ?thesis by (intro exI [of _ "Suc j"]) auto
  qed
qed

lemma wf_placeholder_edges: "wf ({ph} \<times> {x. x \<noteq> ph})"
  by (rule wf_subset [OF wf_measure [of "\<lambda>k. if k = ph then 0 else Suc 0"]]) auto

lemma set_depends:
  "set (depends nodes) =
     {(p, c). p \<in> set nodes \<and> c \<in> set nodes
        \<and> (\<exists>t \<in> set (node_input c). t \<noteq> [] \<and> t \<in> set (node_output p))}"
  by (auto simp: depends_def)

lemma acyclic_by_rank:
  "\<forall>(p, c) \<in> r. f p < (f c :: nat) \<Longrightarrow> acyclic r"
  by (rule acyclic_subset [OF wf_acyclic [OF wf_measure [of f]]]) auto

text \<open>
  What the traversal does achieve. For every graph of \<open>well_formed\<close> whose data
  dependencies are acyclic, the embedded sort returns a list, the list is a permutation of
  the input node list, and a node that produces a non-empty input of another node stands
  before it.
\<close>

lemma topological_sort_rooted_graphs:
  assumes wfg: "well_formed initializers nodes inputs outputs"
    and acyc: "acyclic (set (depends nodes))"
  shows "\<exists>res. topological_sort initializers nodes inputs outputs = Inr res
           \<and> mset res = mset nodes
           \<and> (\<forall>i j. i < length res \<and> j < length res
                  \<and> (res ! i, res ! j) \<in> set (depends nodes) \<longrightarrow> i < j)"
proof -
  let ?ph = "DynNode ''placeholder'' (map pname inputs @ map pname initializers)"
  let ?roots = "?ph # map Op (filter (\<lambda>nd. op_type nd = ''Constant'') nodes)"
  let ?m = "op_output_map_of (map Op nodes @ ?roots)"
  let ?P = "produced initializers nodes inputs"
  let ?st0 = "\<lparr>visited = {}, sorted_nodes = [], unfinished_nodes = {}\<rparr>"
  from wfg have "[] \<notin> name ` set nodes" and "''placeholder'' \<notin> name ` set nodes"
    by (simp_all add: well_formed_def)
  then have nonempty: "\<forall>c \<in> set nodes. name c \<noteq> []"
    and noph: "\<forall>c \<in> set nodes. name c \<noteq> ''placeholder''"
    by force+
  from wfg have dist: "distinct (map name nodes)"
    and nodangling: "\<forall>c \<in> set nodes. \<forall>t \<in> set (node_input c). t \<noteq> [] \<longrightarrow> t \<in> ?P"
    and outs: "\<forall>y \<in> set outputs. pname y \<in> ?P"
    and single: "\<forall>p \<in> set nodes. \<forall>t \<in> set (node_output p).
         t \<noteq> [] \<longrightarrow> t \<notin> pname ` set inputs \<and> t \<notin> pname ` set initializers
                 \<and> (\<forall>q \<in> set nodes. t \<in> set (node_output q) \<longrightarrow> q = p)"
    and rooted: "\<forall>c \<in> set nodes. op_type c = ''Constant'' \<or> (\<exists>t \<in> set (node_input c). t \<noteq> [])"
    by (simp_all add: well_formed_def)
  have inj: "p = q" if "p \<in> set nodes" "q \<in> set nodes" "name p = name q" for p q
    using dist that by (meson distinct_map inj_onD)
  have dom_m: "dom ?m = ?P"
    by (rule op_output_map_dom_produced)
  have m_Some: "(v = ?ph \<or> (\<exists>q \<in> set nodes. v = Op q)) \<and> t \<in> set (v_output v)"
    if "?m t = Some v" for t v
    using op_output_map_of_Some [OF that] by auto
  have m_ex: "\<exists>v. ?m t = Some v" if "t \<in> ?P" for t
    using that dom_m by auto
  have ran_m: "p = ?ph \<or> (\<exists>q \<in> set nodes. p = Op q)" if "p \<in> ran ?m" for p
    using that m_Some by (auto simp: ran_def)

  \<comment> \<open>the successor lists\<close>
  from nodangling dom_m
  have "\<forall>op \<in> set nodes. \<forall>t \<in> set (node_input op). t \<noteq> [] \<longrightarrow> ?m t \<noteq> None"
    by (metis domIff)
  from build_edges_ok [OF this, of "[]"] obtain E0 where E0: "build_edges ?m nodes [] = Inr E0"
    by blast
  from outs dom_m have "\<forall>y \<in> set outputs. ?m (pname y) \<noteq> None"
    by (metis domIff)
  from add_output_entries_ok [OF this, of E0] obtain E where
    E: "add_output_entries ?m outputs E0 = Inr E"
    by blast
  have succs: "set (edges_get E k) = {op \<in> set nodes. feeds ?m k op}" for k
    using build_edges_succs [OF E0, of k] add_output_entries_succs [OF E, of k]
    by (simp add: edges_get_def)
  have "fst ` set E0 \<subseteq> {v_name p | p. p \<in> ran ?m}"
    using build_edges_keys [OF E0] by simp
  then have keys: "fst ` set E \<subseteq> {v_name p | p. p \<in> ran ?m}"
    using add_output_entries_keys [OF E] by blast
  have no_empty_key: "map_of E [] = None"
  proof -
    have "[] \<notin> fst ` set E"
    proof
      assume "[] \<in> fst ` set E"
      with keys obtain p where p: "p \<in> ran ?m" "v_name p = []" by force
      from ran_m [OF p(1)] p(2) nonempty show False by auto
    qed
    then show ?thesis by (simp add: map_of_eq_None_iff)
  qed

  \<comment> \<open>the edges between names are well-founded\<close>
  have R_sub: "edge_rel E \<subseteq> ({''placeholder''} \<times> {x. x \<noteq> ''placeholder''})
                 \<union> map_prod name name ` set (depends nodes)"
  proof
    fix e assume "e \<in> edge_rel E"
    then obtain k c where e: "e = (k, name c)" and c: "c \<in> set (edges_get E k)"
      by (auto simp: edge_rel_def)
    from c succs have cN: "c \<in> set nodes" and f: "feeds ?m k c" by auto
    from f obtain t p where t: "t \<in> set (node_input c)" "t \<noteq> []" and p: "?m t = Some p"
      and k: "v_name p = k"
      by (auto simp: feeds_def)
    from m_Some [OF p] show "e \<in> ({''placeholder''} \<times> {x. x \<noteq> ''placeholder''})
                 \<union> map_prod name name ` set (depends nodes)"
    proof (elim conjE disjE bexE)
      assume "p = ?ph"
      with k e cN noph show ?thesis by auto
    next
      fix q assume q: "q \<in> set nodes" "p = Op q" and "t \<in> set (v_output p)"
      with t cN have "(q, c) \<in> set (depends nodes)" by (auto simp: set_depends)
      then have "map_prod name name (q, c) \<in> map_prod name name ` set (depends nodes)"
        by (rule imageI)
      with q k e show ?thesis by auto
    qed
  qed
  have "wf (set (depends nodes))"
    using acyc by (simp add: wf_set)
  then have wf_img: "wf (map_prod name name ` set (depends nodes))"
  proof (rule wf_map_prod_image_Dom_Ran)
    fix a a' assume "a \<in> Domain (set (depends nodes))" "a' \<in> Range (set (depends nodes))"
      "name a = name a'"
    then show "a = a'" by (auto simp: set_depends intro: inj)
  qed
  have "wf (({''placeholder''} \<times> {x. x \<noteq> ''placeholder''})
              \<union> map_prod name name ` set (depends nodes))"
  proof (rule wf_Un [OF wf_placeholder_edges wf_img])
    show "Domain ({''placeholder''} \<times> {x. x \<noteq> ''placeholder''})
            \<inter> Range (map_prod name name ` set (depends nodes)) = {}"
      using noph by (auto simp: set_depends)
  qed
  then have wfR: "wf (edge_rel E)"
    using R_sub by (rule wf_subset)

  have ok: "edges_ok E (set nodes)"
    unfolding edges_ok_def
    using wf_acyclic [OF wfR] no_empty_key succs noph by auto

  \<comment> \<open>the traversal\<close>
  have inv0: "dfs_inv E (set nodes) ?st0"
    by (simp add: dfs_inv_def)
  have "\<forall>v \<in> set ?roots. vertex_ok (set nodes) v"
    using noph by (auto simp: vertex_ok_def)
  from visit_all_correct [OF ok inv0 _ this] obtain st where
    st: "visit_all E ?roots ?st0 = Inr st" and inv: "dfs_inv E (set nodes) st"
    and roots: "v_name ` set ?roots \<subseteq> visited st"
    by auto
  have res: "topological_sort initializers nodes inputs outputs = Inr (sorted_nodes st)"
    using E0 E st by (simp add: topological_sort_def)
  let ?S = "sorted_nodes st"
  from inv have closed: "\<forall>k \<in> visited st. \<forall>s \<in> set (edges_get E k). name s \<in> visited st"
    and distS: "distinct (map name ?S)"
    and sub2: "visited st \<subseteq> insert ''placeholder'' (name ` set ?S)"
    and subN: "set ?S \<subseteq> set nodes"
    and tp: "topo E ?S"
    by (simp_all add: dfs_inv_def)

  \<comment> \<open>every node is reached\<close>
  have reach: "x \<in> name ` set nodes \<longrightarrow> x \<in> visited st" for x
  proof (induction x rule: wf_induct_rule [OF wfR])
    case (1 x)
    show ?case
    proof
      assume "x \<in> name ` set nodes"
      then obtain c where c: "c \<in> set nodes" and x: "x = name c" by auto
      show "x \<in> visited st"
      proof (cases "op_type c = ''Constant''")
        case True
        with c have "Op c \<in> set ?roots" by simp
        then have "v_name (Op c) \<in> v_name ` set ?roots" by (rule imageI)
        with roots x show ?thesis by auto
      next
        case False
        with rooted c obtain t where t: "t \<in> set (node_input c)" "t \<noteq> []" by auto
        with nodangling c have "t \<in> ?P" by auto
        from m_ex [OF this] obtain p where p: "?m t = Some p" by blast
        with t have "feeds ?m (v_name p) c" by (auto simp: feeds_def)
        with c succs have cs: "c \<in> set (edges_get E (v_name p))" by simp
        then have e: "(v_name p, x) \<in> edge_rel E" using x by (auto intro: edge_relI)
        have "v_name p \<in> visited st"
        proof (cases p)
          case (DynNode k outs)
          with m_Some [OF p] have "p = ?ph" by auto
          with roots show ?thesis by simp
        next
          case (Op q)
          with m_Some [OF p] have "q \<in> set nodes" by auto
          with "1.IH" [OF e] Op show ?thesis by auto
        qed
        with closed cs x show ?thesis by auto
      qed
    qed
  qed
  have set_eq: "set ?S = set nodes"
  proof
    show "set ?S \<subseteq> set nodes" by (rule subN)
    show "set nodes \<subseteq> set ?S"
    proof
      fix c assume c: "c \<in> set nodes"
      with reach have "name c \<in> visited st" by auto
      with sub2 noph c have "name c \<in> name ` set ?S" by auto
      then obtain s where s: "s \<in> set ?S" "name s = name c" by auto
      with subN c have "s = c" by (auto intro: inj)
      with s show "c \<in> set ?S" by simp
    qed
  qed
  from distS have "distinct ?S" by (simp add: distinct_map)
  moreover from dist have "distinct nodes" by (simp add: distinct_map)
  ultimately have perm: "mset ?S = mset nodes"
    using set_eq by (simp add: set_eq_iff_mset_eq_distinct)

  \<comment> \<open>producers come first\<close>
  have order: "i < j"
    if i: "i < length ?S" and j: "j < length ?S" and d: "(?S ! i, ?S ! j) \<in> set (depends nodes)"
    for i j
  proof -
    from d obtain t where pN: "?S ! i \<in> set nodes" and cN: "?S ! j \<in> set nodes"
      and t: "t \<in> set (node_input (?S ! j))" "t \<noteq> []" "t \<in> set (node_output (?S ! i))"
      by (auto simp: set_depends)
    from pN t have "t \<in> ?P" by (auto simp: produced_def)
    from m_ex [OF this] obtain p where p: "?m t = Some p" by blast
    have "p = Op (?S ! i)"
      using m_Some [OF p]
    proof (elim conjE disjE bexE)
      assume "p = ?ph" "t \<in> set (v_output p)"
      with single pN t show ?thesis by auto
    next
      fix q assume "q \<in> set nodes" "p = Op q" "t \<in> set (v_output p)"
      with single pN t show ?thesis by auto
    qed
    with p t have "feeds ?m (name (?S ! i)) (?S ! j)" by (auto simp: feeds_def)
    with cN succs have "?S ! j \<in> set (edges_get E (name (?S ! i)))" by simp
    from topo_nth [OF tp i this] obtain j' where j': "i < j'" "j' < length ?S"
      "name (?S ! j') = name (?S ! j)"
      by blast
    from distS j j' have "j' = j"
      by (auto simp: distinct_conv_nth)
    with j' show ?thesis by simp
  qed
  from res perm order show ?thesis by blast
qed

lemma topological_sort_rooted_graphs_example:
  "topological_sort []
     [Node ''B'' ''Add'' [''a'', ''c''] [''b''] [], Node ''C'' ''Constant'' [] [''c''] [],
      Node ''A'' ''Relu'' [''x''] [''a''] []]
     [Named ''x'' 0] [Named ''b'' 0]
   = Inr [Node ''C'' ''Constant'' [] [''c''] [], Node ''A'' ''Relu'' [''x''] [''a''] [],
          Node ''B'' ''Add'' [''a'', ''c''] [''b''] []]"
proof -
  let ?nodes = "[Node ''B'' ''Add'' [''a'', ''c''] [''b''] [], Node ''C'' ''Constant'' [] [''c''] [],
      Node ''A'' ''Relu'' [''x''] [''a''] []]"
  have w: "well_formed [] ?nodes [Named ''x'' 0] [Named ''b'' 0]"
    by (simp add: well_formed_def produced_def)
  have a: "acyclic (set (depends ?nodes))"
    by (rule acyclic_by_rank [of _ "\<lambda>n. if name n = ''B'' then 1 else 0"])
       (simp add: depends_def)
  from topological_sort_rooted_graphs [OF w a] show ?thesis
    by (simp add: topological_sort_def op_output_map_of_def register_outputs_def edges_get_def
          recursive_helper.simps)
qed

text \<open>
  Claim C1, at an acyclic graph with unique, non-empty node names in which every input has
  a producer: \<open>R\<close> has no inputs and is no \<^verbatim>\<open>Constant\<close>, \<open>A\<close> consumes the graph input
  \<open>x\<close>, and \<open>B\<close> consumes the outputs of \<open>A\<close> and of \<open>R\<close>. The traversal starts at
  the synthetic vertex and the \<^verbatim>\<open>Constant\<close> nodes only, so \<open>R\<close> is never visited: the
  result is \<open>A\<close>, \<open>B\<close>, which is no permutation of the three nodes, and \<open>B\<close> stands
  in it without its producer \<open>R\<close>. No error is raised.
\<close>

theorem topological_sort_drops_unrooted_node:
  "acyclic (set (depends
      [Node ''R'' ''RandomNormal'' [] [''r''] [], Node ''A'' ''Relu'' [''x''] [''a''] [],
       Node ''B'' ''Add'' [''a'', ''r''] [''b''] []]))
   \<and> distinct (map name
      [Node ''R'' ''RandomNormal'' [] [''r''] [], Node ''A'' ''Relu'' [''x''] [''a''] [],
       Node ''B'' ''Add'' [''a'', ''r''] [''b''] []])
   \<and> topological_sort []
       [Node ''R'' ''RandomNormal'' [] [''r''] [], Node ''A'' ''Relu'' [''x''] [''a''] [],
        Node ''B'' ''Add'' [''a'', ''r''] [''b''] []]
       [Named ''x'' 0] [Named ''b'' 0]
     = Inr [Node ''A'' ''Relu'' [''x''] [''a''] [], Node ''B'' ''Add'' [''a'', ''r''] [''b''] []]"
proof (intro conjI)
  show "acyclic (set (depends
      [Node ''R'' ''RandomNormal'' [] [''r''] [], Node ''A'' ''Relu'' [''x''] [''a''] [],
       Node ''B'' ''Add'' [''a'', ''r''] [''b''] []]))"
    by (rule acyclic_by_rank [of _ "\<lambda>n. if name n = ''B'' then 1 else 0"])
       (simp add: depends_def)
qed (simp_all add: topological_sort_def op_output_map_of_def register_outputs_def edges_get_def
       recursive_helper.simps)

text \<open>
  Two more acyclic graphs that lose a node the same way or through the name of the
  synthetic vertex: a single node without inputs, and a node named \<open>placeholder\<close>, which
  the traversal takes for the vertex it is already visiting.
\<close>

lemma topological_sort_single_unrooted_node:
  "topological_sort [] [Node ''A'' ''RandomNormal'' [] [''a''] []] [] [Named ''a'' 0] = Inr []"
  by (simp add: topological_sort_def op_output_map_of_def register_outputs_def edges_get_def
        recursive_helper.simps)

lemma topological_sort_node_named_placeholder:
  "topological_sort [] [Node ''placeholder'' ''Relu'' [''x''] [''a''] []] [Named ''x'' 0] []
     = Inl (CycleDetected ''placeholder'')"
  by (simp add: topological_sort_def op_output_map_of_def register_outputs_def edges_get_def
        recursive_helper.simps)

text \<open>
  Claim C2, at the graph the claim names: \<open>A\<close> consumes the output of \<open>B\<close> and \<open>B\<close>
  the output of \<open>A\<close>, and nothing else produces either tensor. The traversal starts at
  the synthetic vertex and the \<^verbatim>\<open>Constant\<close> nodes only, reaches neither node, and
  returns the empty list: no error is raised and both nodes are missing from the result.
\<close>

theorem topological_sort_misses_unrooted_cycle:
  "topological_sort []
     [Node ''A'' ''Relu'' [''b''] [''a''] [], Node ''B'' ''Relu'' [''a''] [''b''] []] [] []
   = Inr []"
  by (simp add: topological_sort_def op_output_map_of_def register_outputs_def edges_get_def
        recursive_helper.simps)

text \<open>A cycle that a declared graph input leads into is found, at the node where it closes.\<close>

lemma topological_sort_rooted_cycle:
  "topological_sort []
     [Node ''A'' ''Add'' [''x'', ''b''] [''a''] [], Node ''B'' ''Relu'' [''a''] [''b''] []]
     [Named ''x'' 0] []
   = Inl (CycleDetected ''A'')"
  by (simp add: topological_sort_def op_output_map_of_def register_outputs_def edges_get_def
        recursive_helper.simps)

section \<open>Unfolding model nodes: properties\<close>

lemma fst_rename_graph: "fst (rename_graph gr p c) = fst (rename_graph gr p c')"
  by (simp add: rename_graph_def)

lemma unfold_loop_nodes:
  "fst (unfold_loop ms onnx c pairs) =
     onnx @ concat (map (\<lambda>(n, m). map (\<lambda>nd. OnnxNode (process_node_body nd n))
                                      (fst (rename_graph (graph m) n ([], [])))) ms)"
proof (induction ms arbitrary: onnx c pairs)
  case Nil
  show ?case by simp
next
  case (Cons a ms)
  obtain n m where a: "a = (n, m)" by (cases a)
  have "fst (rename_graph (graph m) n c) = fst (rename_graph (graph m) n ([], []))"
    by (rule fst_rename_graph)
  then show ?case
    by (simp add: a Cons.IH split_beta Let_def)
qed

lemma model_nodes_of_keys_aux:
  "fst ` set (foldl (\<lambda>d nd. case nd of ModelNode n m \<Rightarrow> AList.update n m d | OnnxNode x \<Rightarrow> d) d0 ns)
     = fst ` set d0 \<union> set (map c_name (filter has_model ns))"
proof (induction ns arbitrary: d0)
  case Nil
  show ?case by simp
next
  case (Cons a ns)
  show ?case
    by (cases a) (auto simp: Cons.IH dom_update)
qed

lemma model_nodes_of_keys:
  "fst ` set (model_nodes_of ns) = set (map c_name (filter has_model ns))"
  by (simp add: model_nodes_of_def model_nodes_of_keys_aux)

lemma unfold_model_node_nodes:
  "fst (unfold_model_node container) =
     [nd \<leftarrow> c_nodes container.
        \<not> has_model nd \<and> c_name nd \<notin> set (map c_name (filter has_model (c_nodes container)))]
     @ concat (map (\<lambda>(n, m). map (\<lambda>nd. OnnxNode (process_node_body nd n))
                                 (fst (rename_graph (graph m) n ([], []))))
                 (model_nodes_of (c_nodes container)))"
proof -
  have "filter (\<lambda>nd. c_name nd \<notin> fst ` set (model_nodes_of (c_nodes container))) (c_nodes container)
      = [nd \<leftarrow> c_nodes container.
        \<not> has_model nd \<and> c_name nd \<notin> set (map c_name (filter has_model (c_nodes container)))]"
    by (rule filter_cong) (auto simp: model_nodes_of_keys)
  then show ?thesis
    by (simp add: unfold_model_node_def Let_def split_beta unfold_loop_nodes)
qed

lemma process_attr_body:
  "a_name a = ''body'' \<Longrightarrow>
     process_attr a p =
       Attr ''body''
         (Graph (g_name (g a)) (fst (rename_graph (g a) p ([], [])))
            (g_initializer (g a) @ rename_iter (g_initializer (g a)) p)
            (rename_iter (g_value_info (g a)) p)
            (rename_iter (g_input (g a)) p) (rename_iter (g_output (g a)) p))"
  by (simp add: process_attr_def rename_graph_def)

lemma process_attr_other: "a_name a \<noteq> ''body'' \<Longrightarrow> process_attr a p = a"
  by (simp add: process_attr_def)

lemma process_node_body_sel:
  "name (process_node_body nd p) = name nd"
  "op_type (process_node_body nd p) = op_type nd"
  "node_input (process_node_body nd p) = node_input nd"
  "node_output (process_node_body nd p) = node_output nd"
  "attribute (process_node_body nd p) = map (\<lambda>a. process_attr a p) (attribute nd)"
proof -
  have "map (\<lambda>a. process_attr a p) (attribute nd) = attribute nd"
    if "\<forall>a \<in> set (attribute nd). a_name a \<noteq> ''body''"
    using that by (simp add: process_attr_other map_idI)
  then show "attribute (process_node_body nd p) = map (\<lambda>a. process_attr a p) (attribute nd)"
    by (simp add: process_node_body_def)
qed (simp_all add: process_node_body_def)

text \<open>
  Claim C3, for the attributes the code rewrites. Every node of the graph embedded in a
  model node comes back renamed, and its attributes are those of the embedded node with
  each attribute named \<^verbatim>\<open>body\<close> replaced: the subgraph's nodes are the result of the
  same renaming pass under the model node's name, its value-info records are the renamed
  copies of the old ones, its initializers are the old ones followed by their renamed
  copies, and its declared inputs and outputs are renamed under the same prefix. An
  attribute with any other name is kept as it is; the renaming pass copies the attributes
  of the subgraph's own nodes unchanged.
\<close>

theorem unfold_model_node_body_attributes:
  assumes "(n, m) \<in> set (model_nodes_of (c_nodes container))"
    and "i < length (g_node (graph m))"
  shows "\<exists>nd'. OnnxNode nd' \<in> set (fst (unfold_model_node container))
           \<and> name nd' = name (io_rename (g_node (graph m) ! i) n i)
           \<and> attribute nd' =
               map (\<lambda>a. if a_name a = ''body'' then
                           Attr ''body''
                             (Graph (g_name (g a)) (fst (rename_graph (g a) n ([], [])))
                                (g_initializer (g a) @ rename_iter (g_initializer (g a)) n)
                                (rename_iter (g_value_info (g a)) n)
                                (rename_iter (g_input (g a)) n)
                                (rename_iter (g_output (g a)) n))
                         else a)
                 (attribute (g_node (graph m) ! i))"
proof -
  let ?nd = "process_node_body (io_rename (g_node (graph m) ! i) n i) n"
  from assms(2) have "io_rename (g_node (graph m) ! i) n i
      \<in> set (fst (rename_graph (graph m) n ([], [])))"
    by (metis rename_graph_length rename_graph_nth nth_mem)
  with assms(1) have "OnnxNode ?nd \<in> set (fst (unfold_model_node container))"
    by (force simp: unfold_model_node_nodes)
  moreover have "attribute ?nd =
               map (\<lambda>a. if a_name a = ''body'' then
                           Attr ''body''
                             (Graph (g_name (g a)) (fst (rename_graph (g a) n ([], [])))
                                (g_initializer (g a) @ rename_iter (g_initializer (g a)) n)
                                (rename_iter (g_value_info (g a)) n)
                                (rename_iter (g_input (g a)) n)
                                (rename_iter (g_output (g a)) n))
                         else a)
                 (attribute (g_node (graph m) ! i))"
    by (simp add: process_node_body_sel process_attr_body process_attr_other cong: map_cong)
  ultimately show ?thesis
    by (intro exI [of _ ?nd]) (simp add: process_node_body_sel)
qed

theorem unfold_model_node_body_attributes_witness:
  "\<exists>nd'. OnnxNode nd' \<in> set (fst (unfold_model_node (Container
       [ModelNode ''m'' (Model (Graph ''G''
          [Node [] ''Loop'' [''c''] [''y'']
             [Attr ''body'' (Graph ''lb'' [Node ''inner'' ''Relu'' [''u''] [''v''] []]
                [Named ''w'' 3] [Named ''vi'' 1] [Named ''u'' 0] [Named ''v'' 0]),
              Attr ''then_branch'' (Graph ''tb'' [Node ''t'' ''Relu'' [''u''] [''v''] []]
                [] [] [Named ''u'' 0] [Named ''v'' 0])]]
          [] [] [] []) [])] [] [] {} None)))
     \<and> name nd' = ''m_op0''
     \<and> attribute nd' =
         [Attr ''body'' (Graph ''lb'' [Node ''m_inner'' ''Relu'' [''m_u''] [''m_v''] []]
            [Named ''w'' 3, Named ''m_w'' 3] [Named ''m_vi'' 1] [Named ''m_u'' 0] [Named ''m_v'' 0]),
          Attr ''then_branch'' (Graph ''tb'' [Node ''t'' ''Relu'' [''u''] [''v''] []]
                [] [] [Named ''u'' 0] [Named ''v'' 0])]"
  using unfold_model_node_body_attributes
    [of "''m''" "Model (Graph ''G''
          [Node [] ''Loop'' [''c''] [''y'']
             [Attr ''body'' (Graph ''lb'' [Node ''inner'' ''Relu'' [''u''] [''v''] []]
                [Named ''w'' 3] [Named ''vi'' 1] [Named ''u'' 0] [Named ''v'' 0]),
              Attr ''then_branch'' (Graph ''tb'' [Node ''t'' ''Relu'' [''u''] [''v''] []]
                [] [] [Named ''u'' 0] [Named ''v'' 0])]]
          [] [] [] []) []"
       "Container
       [ModelNode ''m'' (Model (Graph ''G''
          [Node [] ''Loop'' [''c''] [''y'']
             [Attr ''body'' (Graph ''lb'' [Node ''inner'' ''Relu'' [''u''] [''v''] []]
                [Named ''w'' 3] [Named ''vi'' 1] [Named ''u'' 0] [Named ''v'' 0]),
              Attr ''then_branch'' (Graph ''tb'' [Node ''t'' ''Relu'' [''u''] [''v''] []]
                [] [] [Named ''u'' 0] [Named ''v'' 0])]]
          [] [] [] []) [])] [] [] {} None" 0]
  by (simp add: model_nodes_of_def rename_graph_def rename_iter_def io_rename_def merge_name_def
        string_of_nat.simps enumerate_eq_zip)

text \<open>
  An attribute that holds a graph under another name, such as the \<^verbatim>\<open>then_branch\<close> of an
  \<^verbatim>\<open>If\<close> node, is not rewritten: \<^verbatim>\<open>_process_attr\<close> tests the attribute's name, not its
  value.
\<close>

theorem unfold_model_node_other_graph_attribute_counterexample:
  "fst (unfold_model_node (Container
       [ModelNode ''m'' (Model (Graph ''G''
          [Node ''if'' ''If'' [''c''] [''y'']
             [Attr ''then_branch'' (Graph ''tb'' [Node ''t'' ''Relu'' [''u''] [''v''] []]
                [] [] [Named ''u'' 0] [Named ''v'' 0])]]
          [] [] [] []) [])] [] [] {} None))
   = [OnnxNode (Node ''m_if'' ''If'' [''m_c''] [''m_y'']
        [Attr ''then_branch'' (Graph ''tb'' [Node ''t'' ''Relu'' [''u''] [''v''] []]
           [] [] [Named ''u'' 0] [Named ''v'' 0])])]
   \<and> fst (rename_graph (Graph ''tb'' [Node ''t'' ''Relu'' [''u''] [''v''] []]
             [] [] [Named ''u'' 0] [Named ''v'' 0]) ''m'' ([], []))
       \<noteq> [Node ''t'' ''Relu'' [''u''] [''v''] []]
   \<and> rename_iter [Named ''u'' 0] ''m'' \<noteq> [Named ''u'' 0]
   \<and> rename_iter [Named ''v'' 0] ''m'' \<noteq> [Named ''v'' 0]"
  by (simp add: unfold_model_node_def model_nodes_of_def rename_graph_def rename_iter_def
        io_rename_def merge_name_def process_node_body_def process_attr_def enumerate_eq_zip)

text \<open>
  Claim C9. The list that \<^verbatim>\<open>unfold_model_node\<close> returns is, in this order, the ordinary
  nodes of the container whose name is not the name of any model node of the container,
  and the expanded contents of the model nodes. An ordinary node that shares its name
  with a model node is in neither part.
\<close>

theorem unfold_model_node_result:
  "fst (unfold_model_node container) =
     [nd \<leftarrow> c_nodes container.
        \<not> has_model nd \<and> c_name nd \<notin> set (map c_name (filter has_model (c_nodes container)))]
     @ concat (map (\<lambda>(n, m). map (\<lambda>nd. OnnxNode (process_node_body nd n))
                                 (fst (rename_graph (graph m) n ([], []))))
                 (model_nodes_of (c_nodes container)))"
  by (rule unfold_model_node_nodes)

theorem unfold_model_node_result_witness:
  "fst (unfold_model_node (Container
     [OnnxNode (Node ''m'' ''Relu'' [''a''] [''b''] []),
      OnnxNode (Node ''k'' ''Relu'' [''a''] [''b''] []),
      ModelNode ''m'' (Model (Graph ''G'' [Node ''f'' ''Relu'' [''x''] [''y''] []] [] [] [] []) [])]
     [] [] {} None))
   = [OnnxNode (Node ''k'' ''Relu'' [''a''] [''b''] []),
      OnnxNode (Node ''m_f'' ''Relu'' [''m_x''] [''m_y''] [])]"
  using unfold_model_node_result [of "Container
     [OnnxNode (Node ''m'' ''Relu'' [''a''] [''b''] []),
      OnnxNode (Node ''k'' ''Relu'' [''a''] [''b''] []),
      ModelNode ''m'' (Model (Graph ''G'' [Node ''f'' ''Relu'' [''x''] [''y''] []] [] [] [] []) [])]
     [] [] {} None"]
  by (simp add: model_nodes_of_def rename_graph_def io_rename_def merge_name_def
        process_node_body_def enumerate_eq_zip)

section \<open>Merging models: properties\<close>

text \<open>
  Claim C5. Two models of one node each, the first with declared input \<open>x\<close> and output
  \<open>y\<close>, the second with declared input \<open>y\<close> and output \<open>z\<close>, joined without an
  \<^verbatim>\<open>io_mapping\<close>: the result has the one declared input \<open>g1_x\<close> and the one declared
  output \<open>g2_z\<close>, and the input of the second node is \<open>g1_y\<close>, the renamed output of
  the first, not \<open>g2_y\<close>. Node names, operator types, attributes, initializers and
  opsets are arbitrary.
\<close>

theorem join_models_two_single_node_graphs:
  "\<exists>M. join_models
          [Model (Graph gn1 [Node n1 t1 [''x''] [''y''] as1] i1 v1 [Named ''x'' px] [Named ''y'' py]) o1,
           Model (Graph gn2 [Node n2 t2 [''y''] [''z''] as2] i2 v2 [Named ''y'' qy] [Named ''z'' qz]) o2]
          None = Inr M
       \<and> map pname (g_input (graph M)) = [''g1_x'']
       \<and> map pname (g_output (graph M)) = [''g2_z'']
       \<and> map node_input (g_node (graph M)) = [[''g1_x''], [''g1_y'']]
       \<and> map node_output (g_node (graph M)) = [[''g1_y''], [''g2_z'']]
       \<and> map name (g_node (graph M)) =
           [if n1 = [] then ''g1_op0'' else ''g1_'' @ n1,
            if n2 = [] then ''g2_op0'' else ''g2_'' @ n2]"
  by (simp add: join_models_def mdl_prefix_def string_of_nat.simps rename_iter_def merge_name_def
        rename_graph_def io_rename_def rewire_def enumerate_eq_zip Let_def split_beta)

lemma collect_nodes_pool:
  "fst (snd (collect_nodes ms idx nds c)) =
     fst c @ concat (map (\<lambda>(i, m). g_initializer (graph m)
                                   @ rename_iter (g_initializer (graph m)) (mdl_prefix i))
                       (enumerate idx ms))"
proof (induction ms arbitrary: idx nds c)
  case Nil
  show ?case by simp
next
  case (Cons m ms)
  show ?case
    by (simp add: Cons.IH rename_graph_def Let_def split_beta)
qed

lemma join_models_Inr:
  assumes "join_models models io_mapping = Inr M"
  shows "g_initializer (graph M) =
           remove_unused_initializers (g_node (graph M))
             (fst (snd (collect_nodes models 0 [] ([], [])))) {}"
proof (cases "models = []")
  case True
  with assms show ?thesis by (simp add: join_models_def)
next
  case False
  with assms show ?thesis
    by (auto simp: join_models_def Let_def split_beta split: sum.splits)
qed

text \<open>
  Claim C10. When \<^verbatim>\<open>join_models\<close> returns a model, its initializers are what the pruner
  keeps, for the merged nodes and the empty keep set, of the pool that holds for every
  input model, in order, its own initializers and then their renamed copies. So an
  initializer of an input model, under its own name, is among the initializers of the
  result exactly when that name is an input of some merged node.
\<close>

theorem join_models_initializer_pool:
  assumes "join_models models io_mapping = Inr M"
  shows "g_initializer (graph M) =
           remove_unused_initializers (g_node (graph M))
             (concat (map (\<lambda>(i, m). g_initializer (graph m)
                                    @ rename_iter (g_initializer (graph m)) (mdl_prefix i))
                        (enumerate 0 models))) {}
       \<and> (\<forall>m \<in> set models. \<forall>t \<in> set (g_initializer (graph m)).
             t \<in> set (g_initializer (graph M))
               \<longleftrightarrow> (\<exists>n \<in> set (g_node (graph M)). pname t \<in> set (node_input n)))"
proof -
  let ?pool = "concat (map (\<lambda>(i, m). g_initializer (graph m)
                                    @ rename_iter (g_initializer (graph m)) (mdl_prefix i))
                        (enumerate 0 models))"
  have eq: "g_initializer (graph M) = remove_unused_initializers (g_node (graph M)) ?pool {}"
    using join_models_Inr [OF assms] by (simp add: collect_nodes_pool)
  have "t \<in> set ?pool" if "m \<in> set models" "t \<in> set (g_initializer (graph m))" for m t
  proof -
    from that(1) obtain k where "k < length models" "models ! k = m"
      by (auto simp: in_set_conv_nth)
    then have "(k, m) \<in> set (enumerate 0 models)"
      by (auto simp: in_set_enumerate_eq)
    with that(2) show ?thesis by force
  qed
  with eq show ?thesis
    by (auto simp: remove_unused_initializers_def nodes_input_set_foldl)
qed

theorem join_models_initializer_pool_witness:
  "join_models
         [Model (Graph ''G1'' [Node ''f'' ''Relu'' [''x'', ''w''] [''y''] []] [Named ''w'' 1] []
                   [Named ''x'' 0] [Named ''y'' 0]) [],
          Model (Graph ''G2'' [Node ''h'' ''Relu'' [''y''] [''z''] []] [] []
                   [Named ''y'' 0] [Named ''z'' 0]) []]
         (Some (\<lambda>ports. [''g2_y'' \<mapsto> ''w'']))
       = Inr (Model (Graph ''G1_G2''
         [Node ''g1_f'' ''Relu'' [''g1_x'', ''g1_w''] [''g1_y''] [],
          Node ''g2_h'' ''Relu'' [''w''] [''g2_z''] []]
         [Named ''w'' 1, Named ''g1_w'' 1] [] [Named ''g1_x'' 0] [Named ''g2_z'' 0]) [])
   \<and> remove_unused_initializers
         [Node ''g1_f'' ''Relu'' [''g1_x'', ''g1_w''] [''g1_y''] [],
          Node ''g2_h'' ''Relu'' [''w''] [''g2_z''] []]
         [Named ''w'' 1, Named ''g1_w'' 1] {}
       = [Named ''w'' 1, Named ''g1_w'' 1]"
proof -
  have j: "join_models
         [Model (Graph ''G1'' [Node ''f'' ''Relu'' [''x'', ''w''] [''y''] []] [Named ''w'' 1] []
                   [Named ''x'' 0] [Named ''y'' 0]) [],
          Model (Graph ''G2'' [Node ''h'' ''Relu'' [''y''] [''z''] []] [] []
                   [Named ''y'' 0] [Named ''z'' 0]) []]
         (Some (\<lambda>ports. [''g2_y'' \<mapsto> ''w'']))
       = Inr (Model (Graph ''G1_G2''
         [Node ''g1_f'' ''Relu'' [''g1_x'', ''g1_w''] [''g1_y''] [],
          Node ''g2_h'' ''Relu'' [''w''] [''g2_z''] []]
         [Named ''w'' 1, Named ''g1_w'' 1] [] [Named ''g1_x'' 0] [Named ''g2_z'' 0]) [])"
    by (simp add: join_models_def mdl_prefix_def string_of_nat.simps rename_iter_def merge_name_def
        rename_graph_def io_rename_def rewire_def enumerate_eq_zip Let_def split_beta
        remove_unused_initializers_def)
  from join_models_initializer_pool [OF j] j show ?thesis
    by (simp add: mdl_prefix_def string_of_nat.simps rename_iter_def merge_name_def
          enumerate_eq_zip)
qed

end
